theory Spec2Isabelle
  imports Main "HOL-Library.Word"
begin

section \<open>Data model of cpu.c\<close>

text \<open>
  Pointers are optional addresses: \<open>None\<close> is C's \<open>NULL\<close>. A function pointer and the
  \<open>void *\<close> argument of a runner are opaque numbers.
\<close>

type_synonym addr = nat
type_synonym ptr = "addr option"

text \<open>\<open>struct cpu_runner\<close>: the link to the following runner, the function and its argument.\<close>

record cpu_runner =
  runner_next :: ptr
  func :: nat
  data :: nat

text \<open>\<open>struct cpu_runlist\<close>: the spinlock word (\<open>True\<close> when held) and the head of the chain.\<close>

record cpu_runlist =
  lock :: bool
  next_runner :: ptr

text \<open>\<open>struct apicid_map\<close>: both fields are C \<open>int\<close>, kept as 32-bit patterns.\<close>

record apicid_map_entry =
  am_processor :: "32 word"
  am_apicid :: "32 word"

text \<open>
  Modelled from the spec: the fixed-capacity pool service (\<open>ix/mempool.h\<close> is not among the
  sources). A pool is the list of its free objects: \<open>alloc(pool) -> object | empty\<close> takes
  the first free object, \<open>free(pool, object)\<close> puts one back.
\<close>

type_synonym mempool = "addr list"

text \<open>
  The variables declared with \<open>DEFINE_PERCPU\<close>: every core has its own copy of each,
  inside its memory window.
\<close>

record percpu =
  cpu_numa_node :: "32 word"
  cpu_id :: "32 word"
  cpu_nr :: "32 word"
  apicid :: "32 word"
  runlist :: cpu_runlist
  runners_mempool :: mempool

text \<open>
  What the code does beyond its own memory, in the order it does it: calls of the pool
  service, lock operations, stores to a queue head, calls of a queued function, and the
  calls of the operating environment made during initialisation.
\<close>

datatype event =
    EvAlloc nat ptr
  | EvFree nat addr
  | EvLock nat
  | EvUnlock nat
  | EvStoreHead nat ptr
  | EvCall nat nat
  | EvSetAffinity "32 word"
  | EvGetCpu
  | EvAllocPages nat "32 word"
  | EvDuneEnter addr
  | EvMempoolCreate "32 word"
  | EvCreateDatastore
  | EvFopen
  | EvFclose

text \<open>
  The globals of the file. \<open>cpu_count\<close> is a C \<open>int\<close> (a 32-bit pattern read with
  \<open>sint\<close>); \<open>pcpu s c\<close> are the per-core variables of core \<open>c\<close>; \<open>heap\<close> holds the
  runner objects handed out by the pools; \<open>window_head a\<close> is the pointer stored at the
  base \<open>a\<close> of a memory window; \<open>runners_datastore\<close> tells whether the shared
  datastore has been created; \<open>trace\<close> is the log of events.
\<close>

record sys =
  cpu_count :: "32 word"
  percpu_offsets :: "nat \<Rightarrow> ptr"
  apicid_map :: "nat \<Rightarrow> apicid_map_entry"
  pcpu :: "nat \<Rightarrow> percpu"
  heap :: "addr \<Rightarrow> cpu_runner"
  window_head :: "addr \<Rightarrow> ptr"
  runners_datastore :: bool
  log_is_early_boot :: bool
  trace :: "event list"

text \<open>
  A C function of the file returns 0 or a negated error number. \<open>ECODE r\<close> is a non-zero
  status \<open>r\<close> of an external service that the code hands back unchanged.
\<close>

datatype errno = EINVAL | ENOMEM | EIO | EPERM | ENOSYS | ECODE int

datatype ret = Success | Failure errno

section \<open>Cross-core work dispatch\<close>

definition emit :: "event \<Rightarrow> sys \<Rightarrow> sys" where
  "emit e s = s\<lparr>trace := trace s @ [e]\<rparr>"

definition percpu_upd :: "nat \<Rightarrow> (percpu \<Rightarrow> percpu) \<Rightarrow> sys \<Rightarrow> sys" where
  "percpu_upd c f s = s\<lparr>pcpu := (pcpu s)(c := f (pcpu s c))\<rparr>"

text \<open>
  Modelled from the spec: \<open>mempool_alloc\<close> on the pool of core \<open>c\<close> (\<open>alloc(pool) -> object |
  empty\<close>) gives the first free object, or \<open>NULL\<close> when none is left.
\<close>

definition mempool_alloc :: "nat \<Rightarrow> sys \<Rightarrow> ptr \<times> sys" where
  "mempool_alloc c s =
     (case runners_mempool (pcpu s c) of
        [] \<Rightarrow> (None, emit (EvAlloc c None) s)
      | a # rest \<Rightarrow>
          (Some a, emit (EvAlloc c (Some a)) (percpu_upd c (runners_mempool_update (\<lambda>_. rest)) s)))"

text \<open>
  Modelled from the spec: \<open>mempool_free\<close> on the pool of core \<open>c\<close> (\<open>free(pool, object)\<close>)
  puts the object back. It does not look at where the object came from.
\<close>

definition mempool_free :: "nat \<Rightarrow> addr \<Rightarrow> sys \<Rightarrow> sys" where
  "mempool_free c a s =
     emit (EvFree c a) (percpu_upd c (runners_mempool_update (\<lambda>fl. a # fl)) s)"

text \<open>
  \<open>spin_lock\<close> on the queue of core \<open>c\<close>. In a run with one thread of control a lock that
  is already held is never released, so the call does not return: \<open>None\<close>.
\<close>

definition spin_lock :: "nat \<Rightarrow> sys \<Rightarrow> sys option" where
  "spin_lock c s =
     (if lock (runlist (pcpu s c)) then None
      else Some (emit (EvLock c) (percpu_upd c (runlist_update (lock_update (\<lambda>_. True))) s)))"

definition spin_unlock :: "nat \<Rightarrow> sys \<Rightarrow> sys" where
  "spin_unlock c s = emit (EvUnlock c) (percpu_upd c (runlist_update (lock_update (\<lambda>_. False))) s)"

text \<open>The store \<open>rlist->next_runner = p\<close> on the queue of core \<open>c\<close>.\<close>

definition store_head :: "nat \<Rightarrow> ptr \<Rightarrow> sys \<Rightarrow> sys" where
  "store_head c p s =
     emit (EvStoreHead c p) (percpu_upd c (runlist_update (next_runner_update (\<lambda>_. p))) s)"

definition heap_upd :: "addr \<Rightarrow> (cpu_runner \<Rightarrow> cpu_runner) \<Rightarrow> sys \<Rightarrow> sys" where
  "heap_upd a f s = s\<lparr>heap := (heap s)(a := f (heap s a))\<rparr>"

text \<open>
  \<open>cpu_run_on_one(func, data, cpu)\<close> called on core \<open>self\<close>. \<open>percpu_get\<close> reads the
  variables of the calling core, \<open>percpu_get_remote(_, cpu)\<close> those of core \<open>cpu\<close>. The
  guard compares the \<open>unsigned int cpu\<close> with the \<open>int cpu_count\<close>, which C converts to
  unsigned: the order of 32-bit words.
\<close>

definition cpu_run_on_one :: "nat \<Rightarrow> nat \<Rightarrow> nat \<Rightarrow> 32 word \<Rightarrow> sys \<Rightarrow> (ret \<times> sys) option" where
  "cpu_run_on_one self f d cpu s =
     (if cpu_count s \<le> cpu then Some (Failure EINVAL, s)
      else
        (case mempool_alloc self s of
           (None, s1) \<Rightarrow> Some (Failure ENOMEM, s1)
         | (Some runner, s1) \<Rightarrow>
             (let s2 = heap_upd runner (\<lambda>_. \<lparr>runner_next = None, func = f, data = d\<rparr>) s1;
                  rlist = unat cpu
              in case spin_lock rlist s2 of
                   None \<Rightarrow> None
                 | Some s3 \<Rightarrow>
                     (let s4 = heap_upd runner
                                 (runner_next_update (\<lambda>_. next_runner (runlist (pcpu s3 rlist)))) s3;
                          s5 = store_head rlist (Some runner) s4
                      in Some (Success, spin_unlock rlist s5)))))"

text \<open>
  One round of the \<open>do ... while (runner)\<close> loop of \<open>cpu_do_bookkeeping\<close> on core \<open>self\<close>:
  call the function of \<open>runner\<close>, read its link, free it to the pool of the running core.
  The called function is outside the file: the model records the call and takes the
  dispatch state to be the same after it (\<open>drain_loop_conc\<close> below lets work be submitted
  during the call).
\<close>

definition drain_body :: "nat \<Rightarrow> addr \<Rightarrow> sys \<Rightarrow> ptr \<times> sys" where
  "drain_body self runner s =
     (let last = runner;
          s1 = emit (EvCall (func (heap s runner)) (data (heap s runner))) s;
          nxt = runner_next (heap s1 runner)
      in (nxt, mempool_free self last s1))"

text \<open>The loop: it ends at the first \<open>NULL\<close> link, and runs forever on a cyclic chain.\<close>

partial_function (option) drain_loop :: "nat \<Rightarrow> addr \<Rightarrow> sys \<Rightarrow> sys option" where
  "drain_loop self runner s =
     (case drain_body self runner s of
        (None, s') \<Rightarrow> Some s'
      | (Some r, s') \<Rightarrow> drain_loop self r s')"

text \<open>
  The locked part of \<open>cpu_do_bookkeeping\<close>: take the whole chain and leave the queue
  empty. It returns the captured head.
\<close>

definition drain_swap :: "nat \<Rightarrow> sys \<Rightarrow> (ptr \<times> sys) option" where
  "drain_swap self s =
     (case spin_lock self s of
        None \<Rightarrow> None
      | Some s1 \<Rightarrow>
          (let runner = next_runner (runlist (pcpu s1 self));
               s2 = store_head self None s1
           in Some (runner, spin_unlock self s2)))"

text \<open>
  \<open>cpu_do_bookkeeping()\<close> on core \<open>self\<close>. The head is tested without the lock and read
  again under it; a \<open>NULL\<close> second read would be dereferenced by the loop (\<open>None\<close>).
\<close>

definition cpu_do_bookkeeping :: "nat \<Rightarrow> sys \<Rightarrow> sys option" where
  "cpu_do_bookkeeping self s =
     (case next_runner (runlist (pcpu s self)) of
        None \<Rightarrow> Some s
      | Some _ \<Rightarrow>
          (case drain_swap self s of
             None \<Rightarrow> None
           | Some (None, s') \<Rightarrow> None
           | Some (Some runner, s') \<Rightarrow> drain_loop self runner s'))"


text \<open>Observers of the dispatch state of core \<open>c\<close>, and of an event log.\<close>

definition pool :: "sys \<Rightarrow> nat \<Rightarrow> mempool" where
  "pool s c = runners_mempool (pcpu s c)"

definition qhead :: "sys \<Rightarrow> nat \<Rightarrow> ptr" where
  "qhead s c = next_runner (runlist (pcpu s c))"

definition qlock :: "sys \<Rightarrow> nat \<Rightarrow> bool" where
  "qlock s c = lock (runlist (pcpu s c))"

fun calls_of :: "event list \<Rightarrow> (nat \<times> nat) list" where
  "calls_of [] = []"
| "calls_of (EvCall f d # es) = (f, d) # calls_of es"
| "calls_of (_ # es) = calls_of es"

fun frees_of :: "event list \<Rightarrow> (nat \<times> addr) list" where
  "frees_of [] = []"
| "frees_of (EvFree c a # es) = (c, a) # frees_of es"
| "frees_of (_ # es) = frees_of es"

fun allocs_of :: "event list \<Rightarrow> (nat \<times> addr) list" where
  "allocs_of [] = []"
| "allocs_of (EvAlloc c (Some a) # es) = (c, a) # allocs_of es"
| "allocs_of (_ # es) = allocs_of es"

text \<open>\<open>chain h p as\<close>: following the links of \<open>h\<close> from \<open>p\<close> visits \<open>as\<close> and ends at \<open>NULL\<close>.\<close>

fun chain :: "(addr \<Rightarrow> cpu_runner) \<Rightarrow> ptr \<Rightarrow> addr list \<Rightarrow> bool" where
  "chain h p [] = (p = None)"
| "chain h p (a # as) = (p = Some a \<and> chain h (runner_next (h a)) as)"

text \<open>The function and argument stored in each runner of a list of addresses.\<close>

definition work_of :: "(addr \<Rightarrow> cpu_runner) \<Rightarrow> addr list \<Rightarrow> (nat \<times> nat) list" where
  "work_of h as = map (\<lambda>a. (func (h a), data (h a))) as"

text \<open>
  A submission is a call of \<open>cpu_run_on_one\<close>: the calling core, the function, its
  argument and the target. \<open>submit_all\<close> makes the calls of a list one after the other.
\<close>

type_synonym submission = "nat \<times> nat \<times> nat \<times> 32 word"

fun submit_all :: "submission list \<Rightarrow> sys \<Rightarrow> (ret list \<times> sys) option" where
  "submit_all [] s = Some ([], s)"
| "submit_all ((self, f, d, cpu) # rest) s =
     (case cpu_run_on_one self f d cpu s of
        None \<Rightarrow> None
      | Some (r, s1) \<Rightarrow>
          (case submit_all rest s1 of
             None \<Rightarrow> None
           | Some (rs, s2) \<Rightarrow> Some (r # rs, s2)))"

text \<open>
  The submissions of a list that were accepted, given the values returned for them: the
  calling core, the function and its argument of each.
\<close>

fun accepted :: "ret list \<Rightarrow> submission list \<Rightarrow> (nat \<times> nat \<times> nat) list" where
  "accepted (Success # rs) ((self, f, d, cpu) # subs) = (self, f, d) # accepted rs subs"
| "accepted (Failure e # rs) (sub # subs) = accepted rs subs"
| "accepted [] subs = []"
| "accepted rs [] = []"

text \<open>
  The drain loop with other submissions arriving while it runs: the head of \<open>sched\<close> is
  the list of submissions made while the function of the current runner executes (by
  that function itself, or by other cores), before the loop reads the runner's link.
  Each submission is one step: its update of the queue is inside the critical section of
  the queue's lock, and the loop does not touch the queue. The values returned to the
  submitters are collected. With an empty \<open>sched\<close> this is \<open>drain_loop\<close>.
\<close>

partial_function (option) drain_loop_conc ::
  "nat \<Rightarrow> addr \<Rightarrow> submission list list \<Rightarrow> sys \<Rightarrow> (ret list \<times> sys) option" where
  "drain_loop_conc self runner sched s =
     (let s1 = emit (EvCall (func (heap s runner)) (data (heap s runner))) s
      in case submit_all (case sched of [] \<Rightarrow> [] | b # _ \<Rightarrow> b) s1 of
           None \<Rightarrow> None
         | Some (rs, s2) \<Rightarrow>
             (let nxt = runner_next (heap s2 runner);
                  s3 = mempool_free self runner s2
              in case nxt of
                   None \<Rightarrow> Some (rs, s3)
                 | Some r \<Rightarrow>
                     Option.bind (drain_loop_conc self r (tl sched) s3)
                       (\<lambda>(rs', s'). Some (rs @ rs', s'))))"

definition cpu_do_bookkeeping_conc ::
  "nat \<Rightarrow> submission list list \<Rightarrow> sys \<Rightarrow> (ret list \<times> sys) option" where
  "cpu_do_bookkeeping_conc self sched s =
     (case next_runner (runlist (pcpu s self)) of
        None \<Rightarrow> Some ([], s)
      | Some _ \<Rightarrow>
          (case drain_swap self s of
             None \<Rightarrow> None
           | Some (None, s') \<Rightarrow> None
           | Some (Some runner, s') \<Rightarrow> drain_loop_conc self runner sched s'))"

text \<open>
  Integrity of the pool service for the cores of \<open>C\<close>: no runner is free twice, in one pool
  or in two, and no free runner is among the queued runners \<open>Z\<close>.
\<close>

definition pools_disjoint :: "sys \<Rightarrow> nat set \<Rightarrow> addr set \<Rightarrow> bool" where
  "pools_disjoint s C Z \<longleftrightarrow>
     (\<forall>c \<in> C. distinct (pool s c) \<and> set (pool s c) \<inter> Z = {})
     \<and> (\<forall>c \<in> C. \<forall>c' \<in> C. c \<noteq> c' \<longrightarrow> set (pool s c) \<inter> set (pool s c') = {})"

text \<open>
  The queue of core \<open>t\<close> is the chain \<open>ys\<close>, its lock is free, and the runners \<open>X\<close> (held
  by a drain in progress) and \<open>ys\<close> are all different and not free in a pool of \<open>C\<close>.
\<close>

definition dq_inv :: "sys \<Rightarrow> nat set \<Rightarrow> nat \<Rightarrow> addr list \<Rightarrow> addr list \<Rightarrow> bool" where
  "dq_inv s C t X ys \<longleftrightarrow>
     chain (heap s) (qhead s t) ys \<and> distinct (X @ ys)
     \<and> pools_disjoint s C (set X \<union> set ys) \<and> \<not> qlock s t"

text \<open>The number of free runners in the pools of the cores \<open>cs\<close>.\<close>

definition pool_sizes :: "nat list \<Rightarrow> sys \<Rightarrow> nat list" where
  "pool_sizes cs s = map (\<lambda>c. length (pool s c)) cs"

text \<open>The events a run added to the log of the state it started from.\<close>

definition new_events :: "sys \<Rightarrow> sys \<Rightarrow> event list" where
  "new_events s s' = drop (length (trace s)) (trace s')"

section \<open>Topology scan\<close>

text \<open>
  A C function of the file may also not return a value at all: a failed \<open>assert\<close> aborts
  the process, and a store behind the end of \<open>apicid_map\<close> has no defined result.
\<close>

datatype fault = AssertFailed | OutOfBounds

datatype 'a outcome = Fault fault | Done 'a

text \<open>\<open>isspace\<close> and \<open>isdigit\<close> of the C locale.\<close>

definition is_space :: "char \<Rightarrow> bool" where
  "is_space c = (c \<in> set [CHR 0x20, CHR 0x09, CHR 0x0A, CHR 0x0B, CHR 0x0C, CHR 0x0D])"

definition is_digit :: "char \<Rightarrow> bool" where
  "is_digit c = (48 \<le> (of_char c :: nat) \<and> (of_char c :: nat) \<le> 57)"

definition digits_value :: "string \<Rightarrow> int" where
  "digits_value ds = foldl (\<lambda>v c. 10 * v + (int (of_char c) - 48)) 0 ds"

text \<open>
  \<open>sscanf(buf, "%*s : %d", &x)\<close>: \<open>Some v\<close> when it returns 1 and stores \<open>v\<close>. The
  directive \<open>%*s\<close> skips white space and a run of other characters, a blank in the format
  skips white space, the colon must be there, and \<open>%d\<close> reads an optional sign and at
  least one digit.
\<close>

definition sscanf_colon_int :: "string \<Rightarrow> int option" where
  "sscanf_colon_int buf =
     (let r1 = dropWhile is_space buf;
          w = takeWhile (\<lambda>c. \<not> is_space c) r1;
          r2 = dropWhile (\<lambda>c. \<not> is_space c) r1
      in if w = [] then None
         else
           (case dropWhile is_space r2 of
              [] \<Rightarrow> None
            | c # r3 \<Rightarrow>
                if c \<noteq> CHR '':'' then None
                else
                  (let r4 = dropWhile is_space r3;
                       neg = (case r4 of [] \<Rightarrow> False | x # _ \<Rightarrow> x = CHR ''-'');
                       r5 = (case r4 of [] \<Rightarrow> []
                             | x # t \<Rightarrow> if x = CHR ''-'' \<or> x = CHR ''+'' then t else r4);
                       ds = takeWhile is_digit r5
                   in if ds = [] then None
                      else Some (if neg then - digits_value ds else digits_value ds))))"

text \<open>\<open>!strncmp(buf, p, strlen(p))\<close>.\<close>

definition starts_with :: "string \<Rightarrow> string \<Rightarrow> bool" where
  "starts_with p buf = (take (length p) buf = p)"

text \<open>
  A record the scan gives up on: a line that starts with one of the two field names and
  that \<open>sscanf\<close> does not read.
\<close>

definition malformed :: "string \<Rightarrow> bool" where
  "malformed buf =
     ((starts_with ''processor'' buf \<or> starts_with ''apicid'' buf) \<and> sscanf_colon_int buf = None)"

text \<open>
  The information source as \<open>fgets\<close> delivers it: the lines, and whether the reading ends
  with an error instead of the end of the file.
\<close>

record cpuinfo_file =
  fgets_lines :: "string list"
  fgets_error :: bool

text \<open>
  The \<open>while (true)\<close> loop of \<open>parse_cpuinfo\<close> over the lines left, with the locals
  \<open>processor\<close> and \<open>count\<close> and the table. \<open>ncpu\<close> is the macro \<open>NCPU\<close>, the length of
  \<open>apicid_map\<close>. A value read by \<open>%d\<close> is stored in an \<open>int\<close>: its low 32 bits.
\<close>

fun scan_loop ::
  "nat \<Rightarrow> string list \<Rightarrow> bool \<Rightarrow> 32 word \<Rightarrow> nat \<Rightarrow> (nat \<Rightarrow> apicid_map_entry)
     \<Rightarrow> (ret \<times> (nat \<Rightarrow> apicid_map_entry)) outcome" where
  "scan_loop ncpu [] err processor count tbl =
     Done (if err then Failure EIO else Success, tbl)"
| "scan_loop ncpu (buf # rest) err processor count tbl =
     (case (if starts_with ''processor'' buf
            then map_option word_of_int (sscanf_colon_int buf)
            else Some processor) of
        None \<Rightarrow> Done (Failure EIO, tbl)
      | Some processor' \<Rightarrow>
          if starts_with ''apicid'' buf then
            (case sscanf_colon_int buf of
               None \<Rightarrow> Done (Failure EIO, tbl)
             | Some v \<Rightarrow>
                 if ncpu \<le> count then Fault OutOfBounds
                 else scan_loop ncpu rest err processor' (count + 1)
                        (tbl(count := \<lparr>am_processor = processor', am_apicid = word_of_int v\<rparr>)))
          else scan_loop ncpu rest err processor' count tbl)"

text \<open>
  \<open>parse_cpuinfo()\<close>. \<open>file\<close> is what \<open>fopen\<close> gives (\<open>None\<close> when the source cannot be
  opened); \<open>junk\<close> is the value the uninitialised local \<open>processor\<close> happens to hold.
\<close>

definition parse_cpuinfo ::
  "nat \<Rightarrow> cpuinfo_file option \<Rightarrow> 32 word \<Rightarrow> sys \<Rightarrow> (ret \<times> sys) outcome" where
  "parse_cpuinfo ncpu file junk s =
     (let s1 = emit EvFopen s
      in case file of
           None \<Rightarrow> Done (Failure EIO, s1)
         | Some f \<Rightarrow>
             (case scan_loop ncpu (fgets_lines f) (fgets_error f) junk 0 (apicid_map s1) of
                Fault x \<Rightarrow> Fault x
              | Done (r, tbl) \<Rightarrow> Done (r, emit EvFclose (s1\<lparr>apicid_map := tbl\<rparr>))))"

section \<open>Initialisation\<close>

text \<open>
  What the environment answers to \<open>cpu_init\<close>: the value of
  \<open>sysconf(_SC_NPROCESSORS_CONF)\<close> as stored in the \<open>int cpu_count\<close>, the status of
  \<open>mempool_create_datastore\<close>, and the information source.
\<close>

record init_env =
  nprocs :: "32 word"
  datastore_ret :: int
  cpuinfo :: "cpuinfo_file option"
  stack_junk :: "32 word"

definition cpu_init :: "nat \<Rightarrow> init_env \<Rightarrow> sys \<Rightarrow> (ret \<times> sys) outcome" where
  "cpu_init ncpu env s =
     (let s1 = s\<lparr>cpu_count := nprocs env\<rparr>
      in if sint (cpu_count s1) \<le> 0 \<or> sint (cpu_count s1) > int ncpu
         then Done (Failure EINVAL, s1)
         else
           (let s2 = emit EvCreateDatastore s1
            in if datastore_ret env \<noteq> 0 then Done (Failure (ECODE (datastore_ret env)), s2)
               else
                 (case parse_cpuinfo ncpu (cpuinfo env) (stack_junk env)
                         (s2\<lparr>runners_datastore := True\<rparr>) of
                    Fault x \<Rightarrow> Fault x
                  | Done (r, s3) \<Rightarrow> Done (r, s3))))"

text \<open>
  What the environment answers to \<open>cpu_init_one\<close>: the status of \<open>sched_setaffinity\<close>;
  the status of the \<open>getcpu\<close> system call with the core and the NUMA node it reports;
  the length \<open>__percpu_end - __percpu_start\<close> and the macro \<open>PGSIZE_2MB\<close>; the address
  got from \<open>mem_alloc_pages_onnode\<close> (\<open>None\<close> for \<open>MAP_FAILED\<close>); the status of
  \<open>dune_enter_ex\<close>; the status of \<open>mempool_create\<close> and the free objects of the new pool.
\<close>

record bringup_env =
  setaffinity_ret :: int
  getcpu_ret :: int
  getcpu_cpu :: "32 word"
  getcpu_node :: "32 word"
  percpu_len :: nat
  pgsize_2mb :: nat
  pages :: ptr
  dune_ret :: int
  mempool_create_ret :: int
  pool_objects :: "addr list"

definition PERCPU_DUNE_LEN :: nat where
  "PERCPU_DUNE_LEN = 512"

definition div_up :: "nat \<Rightarrow> nat \<Rightarrow> nat" where
  "div_up x d = (x + d - 1) div d"

text \<open>A per-core area filled with zero bytes.\<close>

definition zero_percpu :: percpu where
  "zero_percpu =
     \<lparr>cpu_numa_node = 0, cpu_id = 0, cpu_nr = 0, apicid = 0,
      runlist = \<lparr>lock = False, next_runner = None\<rparr>, runners_mempool = []\<rparr>"

text \<open>
  \<open>cpu_init_percpu(cpu, numa_node)\<close>: the window base, or \<open>NULL\<close>. The \<open>memset\<close> clears
  the per-core variables of \<open>cpu\<close>, which live in the new window.
\<close>

definition cpu_init_percpu :: "bringup_env \<Rightarrow> 32 word \<Rightarrow> 32 word \<Rightarrow> sys \<Rightarrow> ptr \<times> sys" where
  "cpu_init_percpu env cpu numa_node s =
     (let len = percpu_len env;
          s1 = emit (EvAllocPages (div_up (len + PERCPU_DUNE_LEN) (pgsize_2mb env)) numa_node) s
      in case pages env of
           None \<Rightarrow> (None, s1)
         | Some a \<Rightarrow>
             (let addr_percpu = a + PERCPU_DUNE_LEN;
                  s2 = percpu_upd (unat cpu) (\<lambda>_. zero_percpu) s1;
                  s3 = s2\<lparr>window_head := (window_head s2)(a := Some addr_percpu)\<rparr>;
                  s4 = s3\<lparr>percpu_offsets := (percpu_offsets s3)(unat cpu := Some addr_percpu)\<rparr>
              in (Some a, s4)))"

text \<open>
  The loop \<open>for (i = 0; i < NCPU; i++) if (apicid_map[i].processor == cpu) break;\<close>
  from index \<open>i\<close> on; the result is the final \<open>i\<close>. C compares the \<open>int\<close> field with the
  \<open>unsigned int cpu\<close> as unsigned values: equality of the 32-bit patterns.
\<close>

function lookup_loop :: "nat \<Rightarrow> (nat \<Rightarrow> apicid_map_entry) \<Rightarrow> 32 word \<Rightarrow> nat \<Rightarrow> nat" where
  "lookup_loop ncpu tbl cpu i =
     (if i < ncpu then (if am_processor (tbl i) = cpu then i else lookup_loop ncpu tbl cpu (i + 1))
      else i)"
  by pat_completeness auto
termination
  by (relation "measure (\<lambda>(ncpu, tbl, cpu, i). ncpu - i)") auto

declare lookup_loop.simps [simp del]

text \<open>
  \<open>cpu_init_one(cpu)\<close>, run on the thread that becomes core \<open>cpu\<close>: after
  \<open>dune_enter_ex\<close>, \<open>percpu_get\<close> reads the variables in the window of \<open>cpu\<close>.
\<close>

definition cpu_init_one :: "nat \<Rightarrow> bringup_env \<Rightarrow> 32 word \<Rightarrow> sys \<Rightarrow> (ret \<times> sys) outcome" where
  "cpu_init_one ncpu env cpu s =
     (if cpu_count s \<le> cpu then Done (Failure EINVAL, s)
      else
        (let s1 = emit (EvSetAffinity cpu) s
         in if setaffinity_ret env \<noteq> 0 then Done (Failure EPERM, s1)
            else
              (let s2 = emit EvGetCpu s1;
                   tmp = getcpu_cpu env;
                   numa_node = getcpu_node env
               in if getcpu_ret env \<noteq> 0 then Done (Failure ENOSYS, s2)
                  else if cpu \<noteq> tmp then Done (Failure EINVAL, s2)
                  else
                    (case cpu_init_percpu env cpu numa_node s2 of
                       (None, s3) \<Rightarrow> Done (Failure ENOMEM, s3)
                     | (Some pc, s3) \<Rightarrow>
                         (let s4 = emit (EvDuneEnter pc) s3
                          in if dune_ret env \<noteq> 0 then Done (Failure (ECODE (dune_ret env)), s4)
                             else
                               (let me = unat cpu;
                                    s5 = percpu_upd me (cpu_id_update (\<lambda>_. cpu)) s4;
                                    s6 = percpu_upd me (cpu_numa_node_update (\<lambda>_. numa_node)) s5;
                                    i = lookup_loop ncpu (apicid_map s6) cpu 0
                                in if \<not> i < ncpu then Fault AssertFailed
                                   else
                                     (let s7 = percpu_upd me
                                                 (apicid_update (\<lambda>_. am_apicid (apicid_map s6 i))) s6;
                                          s8 = s7\<lparr>log_is_early_boot := False\<rparr>;
                                          s9 = emit (EvMempoolCreate (cpu_id (pcpu s8 me))) s8
                                      in if mempool_create_ret env \<noteq> 0
                                         then Done (Failure (ECODE (mempool_create_ret env)), s9)
                                         else Done (Success,
                                                percpu_upd me
                                                  (runners_mempool_update (\<lambda>_. pool_objects env))
                                                  s9))))))))"

section \<open>Example inputs\<close>

text \<open>
  Two cores after bring-up: empty queues, free locks, three free runners in each pool.
\<close>

definition demo_state :: sys where
  "demo_state =
     \<lparr>cpu_count = 2,
      percpu_offsets = (\<lambda>_. None),
      apicid_map = (\<lambda>_. \<lparr>am_processor = 0, am_apicid = 0\<rparr>),
      pcpu = (\<lambda>c. zero_percpu\<lparr>runners_mempool :=
                (if c = 0 then [10, 11, 12] else if c = 1 then [20, 21, 22] else [])\<rparr>),
      heap = (\<lambda>_. \<lparr>runner_next = None, func = 0, data = 0\<rparr>),
      window_head = (\<lambda>_. None),
      runners_datastore = True,
      log_is_early_boot = False,
      trace = []\<rparr>"

text \<open>
  Dispatch examples: core 0 submits to core 1, which then drains; three submissions to
  core 1; a state in which the queue of core 1 holds the runners 11 and 10; and two
  submissions that arrive while these two runners are executed.
\<close>

definition demo_round_trip :: "sys option" where
  "demo_round_trip =
     (case cpu_run_on_one 0 7 8 1 demo_state of
        None \<Rightarrow> None
      | Some (r, s1) \<Rightarrow> cpu_do_bookkeeping 1 s1)"

definition demo_subs :: "submission list" where
  "demo_subs = [(0, 100, 1, 1), (1, 200, 2, 1), (0, 300, 3, 1)]"

definition demo_queued :: sys where
  "demo_queued =
     demo_state\<lparr>
       pcpu := (\<lambda>c. zero_percpu\<lparr>
         runlist := \<lparr>lock = False, next_runner = (if c = 1 then Some 11 else None)\<rparr>,
         runners_mempool := (if c = 0 then [12] else if c = 1 then [20, 21, 22] else [])\<rparr>),
       heap := (\<lambda>_. \<lparr>runner_next = None, func = 0, data = 0\<rparr>)
         (10 := \<lparr>runner_next = None, func = 100, data = 1\<rparr>,
          11 := \<lparr>runner_next = Some 10, func = 200, data = 2\<rparr>)\<rparr>"

definition demo_sched :: "submission list list" where
  "demo_sched = [[(0, 300, 3, 1)], [(1, 400, 4, 1)]]"

text \<open>
  Information sources: a well-formed one with tabs and line ends as in \<open>/proc/cpuinfo\<close>,
  one with two identifier records after a single processor record, and one with a
  processor record that lacks its colon.
\<close>

definition demo_cpuinfo :: "string list" where
  "demo_cpuinfo =
     [''processor'' @ [CHR 0x09] @ '': 0'' @ [CHR 0x0A],
      ''model name : cpu'',
      ''apicid'' @ [CHR 0x09, CHR 0x09] @ '': 4'' @ [CHR 0x0A]]"

definition demo_unordered :: "string list" where
  "demo_unordered = [''processor : 0'', ''apicid : 4'', ''apicid : 6'']"

definition demo_malformed :: "string list" where
  "demo_malformed = [''processor : 0'', ''apicid : 4'', ''processor 1'', ''apicid : 6'']"

definition demo_init_env :: init_env where
  "demo_init_env =
     \<lparr>nprocs = 2, datastore_ret = 0,
      cpuinfo = Some \<lparr>fgets_lines = demo_cpuinfo, fgets_error = False\<rparr>, stack_junk = 0\<rparr>"

text \<open>A topology table with the entries of two cores, and an environment in which every
  step of the bring-up of core 1 succeeds.\<close>

definition demo_topology :: sys where
  "demo_topology =
     demo_state\<lparr>apicid_map := (\<lambda>_. \<lparr>am_processor = 0, am_apicid = 0\<rparr>)
        (0 := \<lparr>am_processor = 0, am_apicid = 4\<rparr>, 1 := \<lparr>am_processor = 1, am_apicid = 6\<rparr>)\<rparr>"

definition demo_bringup_env :: bringup_env where
  "demo_bringup_env =
     \<lparr>setaffinity_ret = 0, getcpu_ret = 0, getcpu_cpu = 1, getcpu_node = 0,
      percpu_len = 4096, pgsize_2mb = 2097152, pages = Some 4194304, dune_ret = 0,
      mempool_create_ret = 0, pool_objects = [30, 31]\<rparr>"

text \<open>
  An information source without identifier records, and the state \<open>cpu_init\<close> leaves
  after scanning it: no slot of \<open>apicid_map\<close> has been written.
\<close>

definition demo_no_apicid :: init_env where
  "demo_no_apicid =
     \<lparr>nprocs = 2, datastore_ret = 0,
      cpuinfo = Some \<lparr>fgets_lines = [''processor : 0'', ''processor : 1''], fgets_error = False\<rparr>,
      stack_junk = 0\<rparr>"

definition demo_scanned :: sys where
  "demo_scanned = demo_state\<lparr>trace := [EvCreateDatastore, EvFopen, EvFclose]\<rparr>"

section \<open>Properties of the dispatch\<close>

lemma sint_nonneg_uint: "0 \<le> sint (w :: 32 word) \<Longrightarrow> sint w = uint w"
proof -
  assume nonneg: "0 \<le> sint w"
  have "uint w = take_bit 32 (sint w)"
    by (simp add: uint_sint)
  also have "\<dots> = sint w"
    using nonneg sint_lt [of w] by (simp add: take_bit_int_eq_self)
  finally show ?thesis by simp
qed

text \<open>
  The guard of \<open>cpu_run_on_one\<close> and \<open>cpu_init_one\<close> is an unsigned comparison. It agrees
  with the order of the integers when \<open>cpu_count\<close> is not negative, as the data model has
  it; a negative \<open>cpu_count\<close> reads as a value of at least \<open>2^31\<close> and lets every smaller
  index pass.
\<close>

lemma guard_is_unsigned:
  assumes "sint (cc :: 32 word) < 0" and "uint (cpu :: 32 word) < 2 ^ 31"
  shows "\<not> cc \<le> cpu"
proof -
  have "uint cc = take_bit 32 (sint cc)"
    by (simp add: uint_sint)
  also have "\<dots> = sint cc mod 2 ^ 32"
    by (simp add: take_bit_eq_mod)
  also have "\<dots> = sint cc + 2 ^ 32"
  proof -
    have "- (2 ^ 32) \<le> sint cc"
      using sint_ge [of cc] by simp
    with assms(1) have "(sint cc + 2 ^ 32) mod 2 ^ 32 = sint cc + 2 ^ 32"
      by (intro mod_pos_pos_trivial) simp_all
    then show ?thesis
      by simp
  qed
  finally have "2 ^ 31 \<le> uint cc"
    using sint_ge [of cc] by simp
  with assms(2) show ?thesis
    by (simp add: word_le_def)
qed

text \<open>
  C8. A target index at or beyond \<open>core_count()\<close> is refused with the invalid-target error;
  nothing is allocated and no queue is touched: the whole state, its event log included,
  is the one before the call. The core count is a count, so it is not negative.
\<close>

theorem submit_invalid_target:
  assumes "0 \<le> sint (cpu_count s)" and "sint (cpu_count s) \<le> uint cpu"
  shows "cpu_run_on_one self f d cpu s = Some (Failure EINVAL, s)"
proof -
  from assms have "uint (cpu_count s) \<le> uint cpu"
    by (simp add: sint_nonneg_uint)
  then have "cpu_count s \<le> cpu"
    by (simp add: word_le_def)
  then show ?thesis
    by (simp add: cpu_run_on_one_def)
qed

theorem submit_invalid_target_witness:
  "0 \<le> sint (cpu_count demo_state) \<and> sint (cpu_count demo_state) \<le> uint (5 :: 32 word)
   \<and> cpu_run_on_one 0 7 8 5 demo_state = Some (Failure EINVAL, demo_state)"
proof -
  have h1: "0 \<le> sint (cpu_count demo_state)"
    by (simp add: demo_state_def)
  have h2: "sint (cpu_count demo_state) \<le> uint (5 :: 32 word)"
    by (simp add: demo_state_def)
  show ?thesis
    using h1 h2 submit_invalid_target [OF h1 h2, of 0 7 8] by simp
qed

text \<open>
  C10. With an empty queue head, \<open>cpu_do_bookkeeping\<close> on that core returns at once with the
  state it was given: no lock event, no call, no free.
\<close>

theorem drain_empty_noop:
  assumes "next_runner (runlist (pcpu s self)) = None"
  shows "cpu_do_bookkeeping self s = Some s"
  using assms by (simp add: cpu_do_bookkeeping_def)

theorem drain_empty_noop_witness:
  "next_runner (runlist (pcpu demo_state 1)) = None
   \<and> cpu_do_bookkeeping 1 demo_state = Some demo_state"
proof -
  have h: "next_runner (runlist (pcpu demo_state 1)) = None"
    by (simp add: demo_state_def zero_percpu_def)
  show ?thesis
    using h drain_empty_noop [OF h] by simp
qed

subsection \<open>One submission\<close>

lemma valid_target_guard:
  assumes "uint cpu < sint (cc :: 32 word)"
  shows "\<not> cc \<le> (cpu :: 32 word)"
proof -
  have "0 \<le> sint cc"
    using assms uint_ge_0 [of cpu] by linarith
  then have "sint cc = uint cc"
    by (rule sint_nonneg_uint)
  with assms show ?thesis
    by (simp add: word_le_def)
qed

lemma run_on_one_success:
  assumes "\<not> cpu_count s \<le> cpu" and "\<not> qlock s (unat cpu)" and "pool s self = a # rest"
  shows "cpu_run_on_one self f d cpu s =
    Some (Success,
      s\<lparr>pcpu := (\<lambda>c. (if c = unat cpu
                        then runlist_update (\<lambda>_. \<lparr>lock = False, next_runner = Some a\<rparr>) else id)
                      ((if c = self then runners_mempool_update (\<lambda>_. rest) else id) (pcpu s c))),
        heap := (heap s)(a := \<lparr>runner_next = qhead s (unat cpu), func = f, data = d\<rparr>),
        trace := trace s @ [EvAlloc self (Some a), EvLock (unat cpu),
                            EvStoreHead (unat cpu) (Some a), EvUnlock (unat cpu)]\<rparr>)"
  using assms
  by (auto simp add: cpu_run_on_one_def mempool_alloc_def spin_lock_def spin_unlock_def
      store_head_def heap_upd_def emit_def percpu_upd_def pool_def qhead_def qlock_def Let_def
      fun_eq_iff)

lemma run_on_one_nomem:
  assumes "\<not> cpu_count s \<le> cpu" and "pool s self = []"
  shows "cpu_run_on_one self f d cpu s = Some (Failure ENOMEM, emit (EvAlloc self None) s)"
  using assms by (simp add: cpu_run_on_one_def mempool_alloc_def pool_def)

text \<open>
  C1, as the code has it. A call on core \<open>self\<close> with a target below the core count, the
  target's lock free and a free runner \<open>a\<close> in the pool of \<open>self\<close> succeeds. The runner
  comes from the pool of the calling core \<open>self\<close>; the pool of the target is touched only
  when the caller is the target. The runner gets the old head as its link, and the store
  that makes it the head of the target's queue stands between the lock and the unlock of
  that queue.
\<close>

theorem submit_allocates_from_caller:
  assumes "uint cpu < sint (cpu_count s)" and "\<not> qlock s (unat cpu)"
    and "pool s self = a # rest"
  shows "cpu_run_on_one self f d cpu s =
    Some (Success,
      s\<lparr>pcpu := (\<lambda>c. (if c = unat cpu
                        then runlist_update (\<lambda>_. \<lparr>lock = False, next_runner = Some a\<rparr>) else id)
                      ((if c = self then runners_mempool_update (\<lambda>_. rest) else id) (pcpu s c))),
        heap := (heap s)(a := \<lparr>runner_next = qhead s (unat cpu), func = f, data = d\<rparr>),
        trace := trace s @ [EvAlloc self (Some a), EvLock (unat cpu),
                            EvStoreHead (unat cpu) (Some a), EvUnlock (unat cpu)]\<rparr>)"
  using assms by (intro run_on_one_success valid_target_guard)

theorem submit_allocates_from_caller_witness:
  "uint (1 :: 32 word) < sint (cpu_count demo_state) \<and> \<not> qlock demo_state (unat (1 :: 32 word))
   \<and> pool demo_state 0 = 10 # [11, 12]
   \<and> map_option ((\<lambda>s. (pool s 0, pool s 1, qhead s 1, heap s 10, trace s)) \<circ> snd)
        (cpu_run_on_one 0 7 8 1 demo_state)
      = Some ([11, 12], [20, 21, 22], Some 10, \<lparr>runner_next = None, func = 7, data = 8\<rparr>,
              [EvAlloc 0 (Some 10), EvLock 1, EvStoreHead 1 (Some 10), EvUnlock 1])"
proof -
  have h1: "uint (1 :: 32 word) < sint (cpu_count demo_state)"
    by (simp add: demo_state_def)
  have h2: "\<not> qlock demo_state (unat (1 :: 32 word))"
    by (simp add: demo_state_def qlock_def zero_percpu_def)
  have h3: "pool demo_state 0 = 10 # [11, 12]"
    by (simp add: demo_state_def pool_def)
  show ?thesis
    using h1 h2 h3
    by (simp add: submit_allocates_from_caller [OF h1 h2 h3, of 7 8] pool_def qhead_def)
      (simp add: demo_state_def zero_percpu_def)
qed

text \<open>
  C1 as stated fails: core 0 submits to core 1, and the runner 10 is taken from the pool
  of core 0, the caller, not from the pool of core 1.
\<close>

theorem submit_target_pool_counterexample:
  "map_option (allocs_of \<circ> trace \<circ> snd) (cpu_run_on_one 0 7 8 1 demo_state) = Some [(0, 10)]"
  by (simp add: cpu_run_on_one_def mempool_alloc_def spin_lock_def spin_unlock_def
      store_head_def heap_upd_def emit_def percpu_upd_def demo_state_def zero_percpu_def Let_def
      word_le_def)

subsection \<open>Sequences of submissions\<close>

lemma chain_frame:
  assumes "\<forall>b \<in> set as. h' b = h b"
  shows "chain h' p as = chain h p as"
  using assms by (induction as arbitrary: p) simp_all

lemma work_of_frame:
  assumes "\<forall>b \<in> set as. h' b = h b"
  shows "work_of h' as = work_of h as"
  using assms by (simp add: work_of_def)

lemma work_of_simps [simp]:
  "work_of h [] = []"
  "work_of h (a # as) = (func (h a), data (h a)) # work_of h as"
  "work_of h (as @ bs) = work_of h as @ work_of h bs"
  by (simp_all add: work_of_def)

lemma calls_of_append [simp]: "calls_of (es @ fs) = calls_of es @ calls_of fs"
  by (induction es rule: calls_of.induct) simp_all

lemma frees_of_append [simp]: "frees_of (es @ fs) = frees_of es @ frees_of fs"
  by (induction es rule: frees_of.induct) simp_all

lemma allocs_of_append [simp]: "allocs_of (es @ fs) = allocs_of es @ allocs_of fs"
  by (induction es rule: allocs_of.induct) simp_all

lemma new_events_append: "trace s' = trace s @ evs \<Longrightarrow> new_events s s' = evs"
  by (simp add: new_events_def)

lemma submit_step:
  assumes "\<not> cpu_count s \<le> cpu" and "\<not> qlock s (unat cpu)" and "pool s self = a # rest"
  shows "\<exists>s'. cpu_run_on_one self f d cpu s = Some (Success, s')
    \<and> pool s' = (pool s)(self := rest)
    \<and> qhead s' = (qhead s)(unat cpu := Some a)
    \<and> qlock s' = qlock s
    \<and> heap s' = (heap s)(a := \<lparr>runner_next = qhead s (unat cpu), func = f, data = d\<rparr>)
    \<and> trace s' = trace s @ [EvAlloc self (Some a), EvLock (unat cpu),
                              EvStoreHead (unat cpu) (Some a), EvUnlock (unat cpu)]
    \<and> cpu_count s' = cpu_count s"
  using assms
  by (auto simp add: run_on_one_success [OF assms] pool_def qhead_def qlock_def fun_eq_iff)

lemma nomem_step:
  assumes "\<not> cpu_count s \<le> cpu" and "pool s self = []"
  shows "\<exists>s'. cpu_run_on_one self f d cpu s = Some (Failure ENOMEM, s')
    \<and> pool s' = pool s \<and> qhead s' = qhead s \<and> qlock s' = qlock s \<and> heap s' = heap s
    \<and> trace s' = trace s @ [EvAlloc self None] \<and> cpu_count s' = cpu_count s"
  by (simp add: run_on_one_nomem [OF assms] emit_def pool_def qhead_def qlock_def fun_eq_iff)

lemma pools_disjoint_take:
  assumes pd: "pools_disjoint s C Z" and self: "self \<in> C" and pl: "pool s self = a # rest"
    and p': "pool s' = (pool s)(self := rest)"
  shows "pools_disjoint s' C (insert a Z)" and "a \<notin> Z"
proof -
  have own: "distinct (pool s c) \<and> set (pool s c) \<inter> Z = {}" if "c \<in> C" for c
    using pd that by (simp add: pools_disjoint_def)
  have apart: "set (pool s c) \<inter> set (pool s c') = {}" if "c \<in> C" "c' \<in> C" "c \<noteq> c'" for c c'
    using pd that by (simp add: pools_disjoint_def)
  from own [OF self] pl have d: "a \<notin> set rest" "distinct rest"
    and z: "a \<notin> Z" "set rest \<inter> Z = {}"
    by auto
  from z show "a \<notin> Z"
    by simp
  have other: "a \<notin> set (pool s c)" if "c \<in> C" "c \<noteq> self" for c
    using apart [OF self that(1)] that(2) pl by auto
  have sub: "set (pool s' c) \<subseteq> set (pool s c)" for c
    using p' pl by (cases "c = self") auto
  show "pools_disjoint s' C (insert a Z)"
    unfolding pools_disjoint_def
  proof (intro conjI ballI impI)
    fix c assume c: "c \<in> C"
    show "distinct (pool s' c)"
      using own [OF c] d p' by (cases "c = self") auto
    show "set (pool s' c) \<inter> insert a Z = {}"
    proof (cases "c = self")
      case True
      with d z p' show ?thesis
        by auto
    next
      case False
      with other [OF c] own [OF c] p' show ?thesis
        by auto
    qed
  next
    fix c c' assume c: "c \<in> C" "c' \<in> C" "c \<noteq> c'"
    from apart [OF c] sub [of c] sub [of c'] show "set (pool s' c) \<inter> set (pool s' c') = {}"
      by blast
  qed
qed


lemma sum_pool_take:
  assumes "finite C" and "self \<in> C" and "pool s self = a # rest"
    and "pool s' = (pool s)(self := rest)"
  shows "(\<Sum>c \<in> C. length (pool s' c)) + 1 = (\<Sum>c \<in> C. length (pool s c))"
proof -
  have "(\<Sum>c \<in> C. length (pool s c)) = length (pool s self) + (\<Sum>c \<in> C - {self}. length (pool s c))"
    using assms(1,2) by (rule sum.remove)
  moreover have "(\<Sum>c \<in> C. length (pool s' c))
      = length (pool s' self) + (\<Sum>c \<in> C - {self}. length (pool s' c))"
    using assms(1,2) by (rule sum.remove)
  moreover have "(\<Sum>c \<in> C - {self}. length (pool s' c)) = (\<Sum>c \<in> C - {self}. length (pool s c))"
    using assms(4) by (intro sum.cong) simp_all
  ultimately show ?thesis
    using assms(3,4) by simp
qed

lemma submit_all_inv:
  assumes "dq_inv s C t X ys"
    and "\<not> cpu_count s \<le> cpu" and "unat cpu = t"
    and "\<forall>(self, f, d, cpu') \<in> set subs. self \<in> C \<and> cpu' = cpu"
    and "finite C"
  shows "\<exists>rs s' new evs. submit_all subs s = Some (rs, s')
      \<and> length rs = length subs
      \<and> dq_inv s' C t X (new @ ys)
      \<and> work_of (heap s') new = rev (map snd (accepted rs subs))
      \<and> (\<forall>b. b \<notin> set new \<longrightarrow> heap s' b = heap s b)
      \<and> trace s' = trace s @ evs \<and> calls_of evs = [] \<and> frees_of evs = []
      \<and> allocs_of evs = zip (map fst (accepted rs subs)) (rev new)
      \<and> length new = length (accepted rs subs)
      \<and> cpu_count s' = cpu_count s
      \<and> (\<Sum>c \<in> C. length (pool s' c)) + length new = (\<Sum>c \<in> C. length (pool s c))
      \<and> (\<forall>c. c \<notin> fst ` set (accepted rs subs) \<longrightarrow> pool s' c = pool s c)
      \<and> ((\<forall>c \<in> C. length (filter (\<lambda>sub. fst sub = c) subs) \<le> length (pool s c))
            \<longrightarrow> rs = replicate (length subs) Success)"
  using assms
proof (induction subs arbitrary: s ys)
  case Nil
  show ?case
    by (rule exI [of _ "[]"], rule exI [of _ s], rule exI [of _ "[]"], rule exI [of _ "[]"])
      (use Nil.prems in simp)
next
  case (Cons sub subs)
  obtain self f d cpu' where sub: "sub = (self, f, d, cpu')"
    by (cases sub)
  with Cons.prems(4) have self: "self \<in> C" and cpu': "cpu' = cpu"
    and rest_ok: "\<forall>(self, f, d, cpu') \<in> set subs. self \<in> C \<and> cpu' = cpu"
    by simp_all
  from Cons.prems(1) have ch: "chain (heap s) (qhead s t) ys" and dist: "distinct (X @ ys)"
    and pd: "pools_disjoint s C (set X \<union> set ys)" and unlocked: "\<not> qlock s t"
    by (simp_all add: dq_inv_def)
  note guard = Cons.prems(2) and tgt = Cons.prems(3) and fin = Cons.prems(5)
  show ?case
  proof (cases "pool s self")
    case Nil
    from nomem_step [OF guard Nil, of f d] obtain s1 where
      run: "cpu_run_on_one self f d cpu s = Some (Failure ENOMEM, s1)"
      and obs: "pool s1 = pool s" "qhead s1 = qhead s" "qlock s1 = qlock s" "heap s1 = heap s"
      and tr1: "trace s1 = trace s @ [EvAlloc self None]" and cc1: "cpu_count s1 = cpu_count s"
      by blast
    from Cons.prems(1) obs have inv1: "dq_inv s1 C t X ys"
      by (simp add: dq_inv_def pools_disjoint_def)
    from guard cc1 have guard1: "\<not> cpu_count s1 \<le> cpu"
      by simp
    from Cons.IH [OF inv1 guard1 tgt rest_ok fin] obtain rs s' new evs where
      ih: "submit_all subs s1 = Some (rs, s')" "length rs = length subs"
        "dq_inv s' C t X (new @ ys)"
        "work_of (heap s') new = rev (map snd (accepted rs subs))"
        "\<forall>b. b \<notin> set new \<longrightarrow> heap s' b = heap s1 b"
        "trace s' = trace s1 @ evs" "calls_of evs = []" "frees_of evs = []"
        "allocs_of evs = zip (map fst (accepted rs subs)) (rev new)"
        "length new = length (accepted rs subs)"
        "cpu_count s' = cpu_count s1"
        "(\<Sum>c \<in> C. length (pool s' c)) + length new = (\<Sum>c \<in> C. length (pool s1 c))"
        "\<forall>c. c \<notin> fst ` set (accepted rs subs) \<longrightarrow> pool s' c = pool s1 c"
        "(\<forall>c \<in> C. length (filter (\<lambda>sub. fst sub = c) subs) \<le> length (pool s1 c))
            \<longrightarrow> rs = replicate (length subs) Success"
      by blast
    have starved: "\<not> (\<forall>c \<in> C. length (filter (\<lambda>sub. fst sub = c) (sub # subs))
        \<le> length (pool s c))"
      using self Nil sub by (auto intro!: bexI [of _ self])
    show ?thesis
      by (rule exI [of _ "Failure ENOMEM # rs"], rule exI [of _ s'], rule exI [of _ new],
          rule exI [of _ "EvAlloc self None # evs"])
        (use ih(1-13) run obs tr1 cc1 sub cpu' starved in simp)
  next
    case (Cons a rest)
    from unlocked tgt have unlocked': "\<not> qlock s (unat cpu)"
      by simp
    from submit_step [OF guard unlocked' Cons, of f d] tgt obtain s1 where
      run: "cpu_run_on_one self f d cpu s = Some (Success, s1)"
      and p1: "pool s1 = (pool s)(self := rest)"
      and h1: "qhead s1 = (qhead s)(t := Some a)"
      and l1: "qlock s1 = qlock s"
      and hp1: "heap s1 = (heap s)(a := \<lparr>runner_next = qhead s t, func = f, data = d\<rparr>)"
      and tr1: "trace s1 = trace s @ [EvAlloc self (Some a), EvLock t,
                  EvStoreHead t (Some a), EvUnlock t]"
      and cc1: "cpu_count s1 = cpu_count s"
      by auto
    from pools_disjoint_take [OF pd self Cons p1]
    have pd1: "pools_disjoint s1 C (insert a (set X \<union> set ys))" and fresh: "a \<notin> set X \<union> set ys"
      by simp_all
    from fresh hp1 have "chain (heap s1) (qhead s t) ys = chain (heap s) (qhead s t) ys"
      by (intro chain_frame) auto
    with ch h1 hp1 have ch1: "chain (heap s1) (qhead s1 t) (a # ys)"
      by simp
    from dist fresh have dist1: "distinct (X @ a # ys)"
      by simp
    from ch1 dist1 pd1 unlocked l1 have inv1: "dq_inv s1 C t X (a # ys)"
      by (simp add: dq_inv_def)
    from guard cc1 have guard1: "\<not> cpu_count s1 \<le> cpu"
      by simp
    from Cons.IH [OF inv1 guard1 tgt rest_ok fin] obtain rs s' new evs where
      ih: "submit_all subs s1 = Some (rs, s')" "length rs = length subs"
        "dq_inv s' C t X (new @ a # ys)"
        "work_of (heap s') new = rev (map snd (accepted rs subs))"
        "\<forall>b. b \<notin> set new \<longrightarrow> heap s' b = heap s1 b"
        "trace s' = trace s1 @ evs" "calls_of evs = []" "frees_of evs = []"
        "allocs_of evs = zip (map fst (accepted rs subs)) (rev new)"
        "length new = length (accepted rs subs)"
        "cpu_count s' = cpu_count s1"
        "(\<Sum>c \<in> C. length (pool s' c)) + length new = (\<Sum>c \<in> C. length (pool s1 c))"
        "\<forall>c. c \<notin> fst ` set (accepted rs subs) \<longrightarrow> pool s' c = pool s1 c"
        "(\<forall>c \<in> C. length (filter (\<lambda>sub. fst sub = c) subs) \<le> length (pool s1 c))
            \<longrightarrow> rs = replicate (length subs) Success"
      by blast
    from ih(3) have "a \<notin> set new"
      by (simp add: dq_inv_def)
    with ih(5) hp1 have at_a: "heap s' a = \<lparr>runner_next = qhead s t, func = f, data = d\<rparr>"
      by simp
    from sum_pool_take [OF fin self Cons p1] ih(12)
    have total: "(\<Sum>c \<in> C. length (pool s' c)) + length (new @ [a]) = (\<Sum>c \<in> C. length (pool s c))"
      by simp
    have frame: "\<forall>b. b \<notin> set (new @ [a]) \<longrightarrow> heap s' b = heap s b"
      using ih(5) hp1 by simp
    have pframe: "\<forall>c. c \<notin> fst ` set (accepted (Success # rs) (sub # subs)) \<longrightarrow> pool s' c = pool s c"
      using ih(13) p1 sub by simp
    have served: "rs = replicate (length subs) Success"
      if enough: "\<forall>c \<in> C. length (filter (\<lambda>sub. fst sub = c) (sub # subs)) \<le> length (pool s c)"
    proof -
      have "length (filter (\<lambda>sub. fst sub = c) subs) \<le> length (pool s1 c)" if c: "c \<in> C" for c
        using enough [rule_format, OF c] p1 Cons sub by (cases "c = self") auto
      with ih(14) show ?thesis
        by simp
    qed
    show ?thesis
      by (rule exI [of _ "Success # rs"], rule exI [of _ s'], rule exI [of _ "new @ [a]"],
          rule exI [of _ "[EvAlloc self (Some a), EvLock t, EvStoreHead t (Some a), EvUnlock t] @ evs"])
        (use ih(1-4,6-11) run tr1 cc1 sub cpu' at_a total frame pframe served in
          simp)
  qed
qed

subsection \<open>The drain\<close>

lemma emit_obs [simp]:
  "pool (emit e s) = pool s" "qhead (emit e s) = qhead s" "qlock (emit e s) = qlock s"
  "heap (emit e s) = heap s" "cpu_count (emit e s) = cpu_count s"
  "trace (emit e s) = trace s @ [e]"
  by (simp_all add: emit_def pool_def qhead_def qlock_def fun_eq_iff)

lemma mempool_free_obs [simp]:
  "pool (mempool_free c a s) = (pool s)(c := a # pool s c)"
  "qhead (mempool_free c a s) = qhead s" "qlock (mempool_free c a s) = qlock s"
  "heap (mempool_free c a s) = heap s" "cpu_count (mempool_free c a s) = cpu_count s"
  "trace (mempool_free c a s) = trace s @ [EvFree c a]"
  by (simp_all add: mempool_free_def emit_def percpu_upd_def pool_def qhead_def qlock_def
      fun_eq_iff)

lemma drain_swap_obs:
  assumes "\<not> qlock s t"
  shows "\<exists>s'. drain_swap t s = Some (qhead s t, s')
    \<and> pool s' = pool s \<and> qhead s' = (qhead s)(t := None) \<and> qlock s' = qlock s
    \<and> heap s' = heap s \<and> cpu_count s' = cpu_count s
    \<and> trace s' = trace s @ [EvLock t, EvStoreHead t None, EvUnlock t]"
  using assms
  by (auto simp add: drain_swap_def spin_lock_def spin_unlock_def store_head_def emit_def
      percpu_upd_def pool_def qhead_def qlock_def fun_eq_iff Let_def)

lemma drain_loop_chain:
  assumes "chain (heap s) (Some r) xs"
  shows "\<exists>s'. drain_loop self r s = Some s'
    \<and> heap s' = heap s \<and> qhead s' = qhead s \<and> qlock s' = qlock s
    \<and> cpu_count s' = cpu_count s
    \<and> pool s' = (pool s)(self := rev xs @ pool s self)
    \<and> (\<exists>evs. trace s' = trace s @ evs \<and> calls_of evs = work_of (heap s) xs
          \<and> frees_of evs = map (Pair self) xs \<and> allocs_of evs = [])"
  using assms
proof (induction xs arbitrary: r s)
  case Nil
  then show ?case by simp
next
  case (Cons a as)
  then have r: "r = a" and rest: "chain (heap s) (runner_next (heap s a)) as"
    by simp_all
  define s1 where "s1 = mempool_free self a (emit (EvCall (func (heap s a)) (data (heap s a))) s)"
  have body: "drain_body self a s = (runner_next (heap s a), s1)"
    by (simp add: drain_body_def s1_def Let_def)
  show ?case
  proof (cases as)
    case Nil
    with rest have "runner_next (heap s a) = None"
      by simp
    with body r have "drain_loop self r s = Some s1"
      by (subst drain_loop.simps) simp
    moreover have "trace s1 = trace s @ [EvCall (func (heap s a)) (data (heap s a)), EvFree self a]"
      by (simp add: s1_def)
    ultimately show ?thesis
      using Nil by (auto simp add: s1_def fun_eq_iff)
  next
    case (Cons a' as')
    with rest have nxt: "runner_next (heap s a) = Some a'"
      by simp
    with rest have "chain (heap s1) (Some a') as"
      by (simp add: s1_def)
    from Cons.IH [OF this] obtain s' evs where
      ih: "drain_loop self a' s1 = Some s'" "heap s' = heap s1" "qhead s' = qhead s1"
        "qlock s' = qlock s1" "cpu_count s' = cpu_count s1"
        "pool s' = (pool s1)(self := rev as @ pool s1 self)"
        "trace s' = trace s1 @ evs" "calls_of evs = work_of (heap s1) as"
        "frees_of evs = map (Pair self) as" "allocs_of evs = []"
      by blast
    from body r nxt ih(1) have "drain_loop self r s = Some s'"
      by (subst drain_loop.simps) simp
    moreover have "trace s' = trace s @
        ([EvCall (func (heap s a)) (data (heap s a)), EvFree self a] @ evs)"
      using ih(7) by (simp add: s1_def)
    ultimately show ?thesis
      using ih(2-6,8-10) by (auto simp add: s1_def fun_eq_iff)
  qed
qed

lemma bookkeeping_chain:
  assumes "chain (heap s) (qhead s t) xs" and "\<not> qlock s t"
  shows "\<exists>s'. cpu_do_bookkeeping t s = Some s'
    \<and> heap s' = heap s \<and> qhead s' = (qhead s)(t := None) \<and> qlock s' = qlock s
    \<and> cpu_count s' = cpu_count s
    \<and> pool s' = (pool s)(t := rev xs @ pool s t)
    \<and> calls_of (new_events s s') = work_of (heap s) xs
    \<and> frees_of (new_events s s') = map (Pair t) xs
    \<and> allocs_of (new_events s s') = []"
proof (cases xs)
  case Nil
  with assms(1) have "qhead s t = None"
    by simp
  then have "cpu_do_bookkeeping t s = Some s" "(qhead s)(t := None) = qhead s"
    by (auto simp add: cpu_do_bookkeeping_def qhead_def)
  with Nil show ?thesis
    by (simp add: new_events_def)
next
  case (Cons a as)
  with assms(1) have hd: "qhead s t = Some a"
    by simp
  from drain_swap_obs [OF assms(2)] hd obtain s1 where
    sw: "drain_swap t s = Some (Some a, s1)" "pool s1 = pool s" "qhead s1 = (qhead s)(t := None)"
      "qlock s1 = qlock s" "heap s1 = heap s" "cpu_count s1 = cpu_count s"
      "trace s1 = trace s @ [EvLock t, EvStoreHead t None, EvUnlock t]"
    by auto
  from assms(1) hd sw(5) have "chain (heap s1) (Some a) xs"
    by simp
  from drain_loop_chain [OF this, of t] obtain s' evs where
    dl: "drain_loop t a s1 = Some s'" "heap s' = heap s1" "qhead s' = qhead s1"
      "qlock s' = qlock s1" "cpu_count s' = cpu_count s1"
      "pool s' = (pool s1)(t := rev xs @ pool s1 t)"
      "trace s' = trace s1 @ evs" "calls_of evs = work_of (heap s1) xs"
      "frees_of evs = map (Pair t) xs" "allocs_of evs = []"
    by blast
  from hd sw(1) dl(1) have "cpu_do_bookkeeping t s = Some s'"
    by (simp add: cpu_do_bookkeeping_def qhead_def)
  moreover have "new_events s s' = [EvLock t, EvStoreHead t None, EvUnlock t] @ evs"
    using sw(7) dl(7) by (simp add: new_events_def)
  ultimately show ?thesis
    using sw(2-6) dl(2-6,8-10) by simp
qed

lemma pools_disjoint_give:
  assumes pd: "pools_disjoint s C (insert a Z)" and a: "a \<notin> Z" and t: "t \<in> C"
    and p': "pool s' = (pool s)(t := a # pool s t)"
  shows "pools_disjoint s' C Z"
proof -
  have own: "distinct (pool s c) \<and> set (pool s c) \<inter> insert a Z = {}" if "c \<in> C" for c
    using pd that by (simp add: pools_disjoint_def)
  have apart: "set (pool s c) \<inter> set (pool s c') = {}" if "c \<in> C" "c' \<in> C" "c \<noteq> c'" for c c'
    using pd that by (simp add: pools_disjoint_def)
  have nowhere: "a \<notin> set (pool s c)" if "c \<in> C" for c
    using own [OF that] by auto
  show ?thesis
    unfolding pools_disjoint_def
  proof (intro conjI ballI impI)
    fix c assume c: "c \<in> C"
    show "distinct (pool s' c)"
      using own [OF c] nowhere [OF c] p' by (cases "c = t") auto
    show "set (pool s' c) \<inter> Z = {}"
      using own [OF c] a p' by (cases "c = t") auto
  next
    fix c c' assume c: "c \<in> C" "c' \<in> C" "c \<noteq> c'"
    from apart [OF c] nowhere [OF c(1)] nowhere [OF c(2)] p' c(3)
    show "set (pool s' c) \<inter> set (pool s' c') = {}"
      by (cases "c = t"; cases "c' = t") auto
  qed
qed

lemma accepted_append:
  assumes "length rs = length subs"
  shows "accepted (rs @ rs') (subs @ subs') = accepted rs subs @ accepted rs' subs'"
  using assms
proof (induction rs subs rule: accepted.induct)
  case (3 subs)
  then show ?case by simp
qed simp_all

lemma concat_take_Suc:
  "concat (take (Suc n) sched) = (case sched of [] \<Rightarrow> [] | b # _ \<Rightarrow> b) @ concat (take n (tl sched))"
  by (cases sched) simp_all

lemma drain_loop_conc_inv:
  assumes "chain (heap s) (Some r) xs"
    and "dq_inv s C t xs ys"
    and "t \<in> C" and "finite C"
    and "\<not> cpu_count s \<le> cpu" and "unat cpu = t"
    and "\<forall>b \<in> set sched. \<forall>(self, f, d, cpu') \<in> set b. self \<in> C \<and> cpu' = cpu"
  shows "\<exists>rs s' new evs. drain_loop_conc t r sched s = Some (rs, s')
      \<and> length rs = length (concat (take (length xs) sched))
      \<and> dq_inv s' C t [] (new @ ys)
      \<and> work_of (heap s') new = rev (map snd (accepted rs (concat (take (length xs) sched))))
      \<and> (\<forall>b. b \<notin> set new \<longrightarrow> heap s' b = heap s b)
      \<and> trace s' = trace s @ evs \<and> calls_of evs = work_of (heap s) xs
      \<and> frees_of evs = map (Pair t) xs
      \<and> cpu_count s' = cpu_count s"
  using assms
proof (induction xs arbitrary: r s ys sched)
  case Nil
  then show ?case by simp
next
  case (Cons a as)
  note guard = Cons.prems(5) and tgt = Cons.prems(6) and t = Cons.prems(3) and fin = Cons.prems(4)
  from Cons.prems(1) have r: "r = a" and rest: "chain (heap s) (runner_next (heap s a)) as"
    by simp_all
  define batch where "batch = (case sched of [] \<Rightarrow> [] | b # _ \<Rightarrow> b)"
  define s0 where "s0 = emit (EvCall (func (heap s a)) (data (heap s a))) s"
  have batch_ok: "\<forall>(self, f, d, cpu') \<in> set batch. self \<in> C \<and> cpu' = cpu"
    using Cons.prems(7) by (cases sched) (simp_all add: batch_def)
  have later_ok: "\<forall>b \<in> set (tl sched). \<forall>(self, f, d, cpu') \<in> set b. self \<in> C \<and> cpu' = cpu"
    using Cons.prems(7) by (cases sched) simp_all
  from Cons.prems(2) have inv0: "dq_inv s0 C t (a # as) ys"
    by (simp add: dq_inv_def pools_disjoint_def s0_def)
  from guard have guard0: "\<not> cpu_count s0 \<le> cpu"
    by (simp add: s0_def)
  from submit_all_inv [OF inv0 guard0 tgt batch_ok fin] obtain rs1 s2 new1 evs1 where
    b: "submit_all batch s0 = Some (rs1, s2)" "length rs1 = length batch"
      "dq_inv s2 C t (a # as) (new1 @ ys)"
      "work_of (heap s2) new1 = rev (map snd (accepted rs1 batch))"
      "\<forall>b. b \<notin> set new1 \<longrightarrow> heap s2 b = heap s0 b"
      "trace s2 = trace s0 @ evs1" "calls_of evs1 = []" "frees_of evs1 = []"
      "cpu_count s2 = cpu_count s0"
    by blast
  from b(3) have d2: "distinct ((a # as) @ new1 @ ys)"
    and pd2: "pools_disjoint s2 C (set (a # as) \<union> set (new1 @ ys))"
    and ch2: "chain (heap s2) (qhead s2 t) (new1 @ ys)" and l2: "\<not> qlock s2 t"
    by (simp_all add: dq_inv_def)
  from d2 have a_new: "a \<notin> set new1" and as_new: "set as \<inter> set new1 = {}"
    by auto
  from a_new b(5) have keep_a: "heap s2 a = heap s a"
    by (simp add: s0_def)
  have keep_as: "\<forall>b \<in> set as. heap s2 b = heap s b"
    using as_new b(5) by (auto simp add: s0_def)
  define s3 where "s3 = mempool_free t a s2"
  have inv3: "dq_inv s3 C t as (new1 @ ys)"
  proof -
    from d2 have "a \<notin> set as \<union> set (new1 @ ys)"
      by auto
    moreover from pd2 have "pools_disjoint s2 C (insert a (set as \<union> set (new1 @ ys)))"
      by simp
    ultimately have "pools_disjoint s3 C (set as \<union> set (new1 @ ys))"
      using t by (rule_tac pools_disjoint_give [where s = s2 and a = a and t = t]) (simp_all add: s3_def)
    with d2 ch2 l2 show ?thesis
      by (simp add: dq_inv_def s3_def)
  qed
  have step: "drain_loop_conc t r sched s =
      (case runner_next (heap s a) of
         None \<Rightarrow> Some (rs1, s3)
       | Some r' \<Rightarrow> Option.bind (drain_loop_conc t r' (tl sched) s3) (\<lambda>(rs', s'). Some (rs1 @ rs', s')))"
    unfolding s3_def using b(1) keep_a r
    by (subst drain_loop_conc.simps) (simp add: s0_def [symmetric] batch_def [symmetric] Let_def)
  have tr3: "trace s3 = trace s @ ([EvCall (func (heap s a)) (data (heap s a))] @ evs1 @ [EvFree t a])"
    using b(6) by (simp add: s3_def s0_def)
  show ?case
  proof (cases as)
    case Nil
    with rest have "runner_next (heap s a) = None"
      by simp
    with step have run: "drain_loop_conc t r sched s = Some (rs1, s3)"
      by simp
    have "concat (take (length (a # as)) sched) = batch"
      using Nil by (cases sched) (simp_all add: batch_def)
    moreover have "\<forall>b. b \<notin> set new1 \<longrightarrow> heap s3 b = heap s b"
      using b(5) by (simp add: s3_def s0_def)
    ultimately show ?thesis
      using run inv3 b(2,4,7,8,9) tr3 Nil
      by (intro exI [of _ rs1] exI [of _ s3] exI [of _ new1]
          exI [of _ "[EvCall (func (heap s a)) (data (heap s a))] @ evs1 @ [EvFree t a]"])
        (simp add: s3_def s0_def)
  next
    case (Cons a' as')
    with rest have nxt: "runner_next (heap s a) = Some a'"
      by simp
    have "chain (heap s3) (Some a') as = chain (heap s) (Some a') as"
      using keep_as by (intro chain_frame) (simp add: s3_def)
    with rest nxt have ch3: "chain (heap s3) (Some a') as"
      by simp
    have guard3: "\<not> cpu_count s3 \<le> cpu"
      using guard b(9) by (simp add: s3_def s0_def)
    from Cons.IH [OF ch3 inv3 t fin guard3 tgt later_ok] obtain rs2 s' new2 evs2 where
      ih: "drain_loop_conc t a' (tl sched) s3 = Some (rs2, s')"
        "length rs2 = length (concat (take (length as) (tl sched)))"
        "dq_inv s' C t [] (new2 @ new1 @ ys)"
        "work_of (heap s') new2 = rev (map snd (accepted rs2 (concat (take (length as) (tl sched)))))"
        "\<forall>b. b \<notin> set new2 \<longrightarrow> heap s' b = heap s3 b"
        "trace s' = trace s3 @ evs2" "calls_of evs2 = work_of (heap s3) as"
        "frees_of evs2 = map (Pair t) as"
        "cpu_count s' = cpu_count s3"
      by blast
    from step nxt ih(1) have run: "drain_loop_conc t r sched s = Some (rs1 @ rs2, s')"
      by simp
    have split: "concat (take (length (a # as)) sched) = batch @ concat (take (length as) (tl sched))"
      by (simp add: concat_take_Suc batch_def)
    from ih(3) have "set new1 \<inter> set new2 = {}"
      by (auto simp add: dq_inv_def)
    with ih(5) have "\<forall>b \<in> set new1. heap s' b = heap s2 b"
      by (auto simp add: s3_def)
    then have "work_of (heap s') new1 = work_of (heap s2) new1"
      by (rule work_of_frame)
    with ih(4) b(4) b(2) have work: "work_of (heap s') (new2 @ new1)
        = rev (map snd (accepted (rs1 @ rs2) (batch @ concat (take (length as) (tl sched)))))"
      by (simp add: accepted_append)
    have frame: "\<forall>b. b \<notin> set (new2 @ new1) \<longrightarrow> heap s' b = heap s b"
      using ih(5) b(5) by (simp add: s3_def s0_def)
    have "work_of (heap s3) as = work_of (heap s) as"
      using keep_as by (intro work_of_frame) (simp add: s3_def)
    with ih(7) have calls: "calls_of evs2 = work_of (heap s) as"
      by simp
    have tr: "trace s' = trace s @
        ([EvCall (func (heap s a)) (data (heap s a))] @ evs1 @ [EvFree t a] @ evs2)"
      using tr3 ih(6) by simp
    show ?thesis
      using run split work frame ih(2,3,8,9) b(2,7,8,9) calls tr
      by (intro exI [of _ "rs1 @ rs2"] exI [of _ s'] exI [of _ "new2 @ new1"]
          exI [of _ "[EvCall (func (heap s a)) (data (heap s a))] @ evs1 @ [EvFree t a] @ evs2"])
        (simp add: s3_def s0_def)
  qed
qed

lemma accepted_all:
  "map snd (accepted (replicate (length subs) Success) subs)
     = map (\<lambda>(self, f, d, cpu'). (f, d)) subs"
  by (induction subs) auto

lemma accepted_callers: "fst ` set (accepted rs subs) \<subseteq> fst ` set subs"
  by (induction rs subs rule: accepted.induct) auto

lemma idle_inv:
  assumes "qhead s t = None" and "\<not> qlock s t" and "pools_disjoint s C {}"
  shows "dq_inv s C t [] []"
  using assms by (simp add: dq_inv_def)

lemma demo_state_obs:
  "pool demo_state = (\<lambda>c. if c = 0 then [10, 11, 12] else if c = 1 then [20, 21, 22] else [])"
  "qhead demo_state = (\<lambda>c. None)" "qlock demo_state = (\<lambda>c. False)"
  "cpu_count demo_state = 2" "trace demo_state = []"
  by (simp_all add: demo_state_def pool_def qhead_def qlock_def zero_percpu_def fun_eq_iff)

lemma demo_pools_disjoint: "pools_disjoint demo_state {0, 1} {}"
  by (simp add: pools_disjoint_def demo_state_obs)

lemma zip_rev_frees:
  assumes "length cs = length as"
  shows "rev (map (\<lambda>(c, a). (t, a)) (zip cs (rev as))) = map (Pair t) as"
proof -
  have "map (\<lambda>(c, a). (t, a)) (zip cs (rev as)) = map (Pair t) (map snd (zip cs (rev as)))"
    by (simp add: case_prod_unfold)
  also have "map snd (zip cs (rev as)) = rev as"
    using assms by simp
  finally show ?thesis
    by (simp add: rev_map)
qed

lemma pools_disjoint_mono:
  assumes "pools_disjoint s C Z" and "D \<subseteq> C"
  shows "pools_disjoint s D Z"
  unfolding pools_disjoint_def
proof (intro conjI ballI impI)
  fix c assume "c \<in> D"
  with assms show "distinct (pool s c)" "set (pool s c) \<inter> Z = {}"
    by (auto simp add: pools_disjoint_def)
next
  fix c c' assume "c \<in> D" "c' \<in> D" "c \<noteq> c'"
  with assms(2) have "c \<in> C" "c' \<in> C" "c \<noteq> c'"
    by auto
  with assms(1) show "set (pool s c) \<inter> set (pool s c') = {}"
    by (simp add: pools_disjoint_def)
qed

lemma sum_pool_give:
  assumes "finite C" and "t \<in> C" and "pool s' = (pool s)(t := as @ pool s t)"
  shows "(\<Sum>c \<in> C. length (pool s' c)) = (\<Sum>c \<in> C. length (pool s c)) + length as"
proof -
  have "(\<Sum>c \<in> C. length (pool s c)) = length (pool s t) + (\<Sum>c \<in> C - {t}. length (pool s c))"
    using assms(1,2) by (rule sum.remove)
  moreover have "(\<Sum>c \<in> C. length (pool s' c))
      = length (pool s' t) + (\<Sum>c \<in> C - {t}. length (pool s' c))"
    using assms(1,2) by (rule sum.remove)
  moreover have "(\<Sum>c \<in> C - {t}. length (pool s' c)) = (\<Sum>c \<in> C - {t}. length (pool s c))"
    using assms(3) by (intro sum.cong) simp_all
  ultimately show ?thesis
    using assms(3) by simp
qed

lemma drain_loop_conc_alone:
  assumes "chain (heap s) (Some r) xs"
  shows "drain_loop_conc t r [] s = map_option (Pair []) (drain_loop t r s)"
  using assms
proof (induction xs arbitrary: r s)
  case Nil
  then show ?case by simp
next
  case (Cons a as)
  then have r: "r = a" and rest: "chain (heap s) (runner_next (heap s a)) as"
    by simp_all
  define s1 where "s1 = mempool_free t a (emit (EvCall (func (heap s a)) (data (heap s a))) s)"
  show ?case
  proof (cases as)
    case Nil
    with rest have "runner_next (heap s a) = None"
      by simp
    with r show ?thesis
      by (subst drain_loop_conc.simps, subst drain_loop.simps) (simp add: drain_body_def Let_def)
  next
    case (Cons a' as')
    with rest have nxt: "runner_next (heap s a) = Some a'"
      by simp
    with rest have "chain (heap s1) (Some a') as"
      by (simp add: s1_def)
    from Cons.IH [OF this] have "drain_loop_conc t a' [] s1 = map_option (Pair []) (drain_loop t a' s1)" .
    with r nxt show ?thesis
      by (subst drain_loop_conc.simps, subst drain_loop.simps)
        (simp add: drain_body_def Let_def s1_def split: option.splits)
  qed
qed

lemma bookkeeping_conc_alone:
  assumes "chain (heap s) (qhead s t) xs" and "\<not> qlock s t"
  shows "cpu_do_bookkeeping_conc t [] s = map_option (Pair []) (cpu_do_bookkeeping t s)"
proof (cases xs)
  case Nil
  with assms(1) have "qhead s t = None"
    by simp
  then show ?thesis
    by (simp add: cpu_do_bookkeeping_conc_def cpu_do_bookkeeping_def qhead_def)
next
  case (Cons a as)
  with assms(1) have hd: "qhead s t = Some a"
    by simp
  from drain_swap_obs [OF assms(2)] hd obtain s0 where
    sw: "drain_swap t s = Some (Some a, s0)" "heap s0 = heap s"
    by auto
  from assms(1) hd sw(2) have "chain (heap s0) (Some a) xs"
    by simp
  from drain_loop_conc_alone [OF this] hd sw(1) show ?thesis
    by (simp add: cpu_do_bookkeeping_conc_def cpu_do_bookkeeping_def qhead_def)
qed

lemma demo_queued_obs:
  "pool demo_queued = (\<lambda>c. if c = 0 then [12] else if c = 1 then [20, 21, 22] else [])"
  "qhead demo_queued = (\<lambda>c. if c = 1 then Some 11 else None)" "qlock demo_queued = (\<lambda>c. False)"
  "cpu_count demo_queued = 2" "trace demo_queued = []"
  "heap demo_queued 10 = \<lparr>runner_next = None, func = 100, data = 1\<rparr>"
  "heap demo_queued 11 = \<lparr>runner_next = Some 10, func = 200, data = 2\<rparr>"
  by (simp_all add: demo_queued_def demo_state_def pool_def qhead_def qlock_def
      zero_percpu_def fun_eq_iff)

lemma demo_conc_returns:
  "map_option fst (cpu_do_bookkeeping_conc 1 demo_sched demo_queued) = Some [Success, Success]"
  by (simp add: cpu_do_bookkeeping_conc_def drain_swap_def spin_lock_def spin_unlock_def
      store_head_def emit_def percpu_upd_def drain_loop_conc.simps mempool_free_def
      cpu_run_on_one_def mempool_alloc_def heap_upd_def demo_sched_def demo_queued_def
      demo_state_def zero_percpu_def Let_def word_le_def)

text \<open>
  C4. Submissions to one target core whose queue is empty and whose lock is free, each of
  them served by the pool of its calling core, are all accepted; a single
  \<open>cpu_do_bookkeeping\<close> on the target then calls the submitted functions in the reverse
  of the order of submission, each once. For three submissions A, B, C the calls are
  C, B, A.
\<close>

theorem drain_runs_in_reverse:
  assumes "qhead s t = None" and "\<not> qlock s t"
    and "uint cpu < sint (cpu_count s)" and "unat cpu = t"
    and "\<forall>(self, f, d, cpu') \<in> set subs. self \<in> C \<and> cpu' = cpu"
    and "finite C" and "pools_disjoint s C {}"
    and "\<forall>c \<in> C. length (filter (\<lambda>sub. fst sub = c) subs) \<le> length (pool s c)"
  shows "\<exists>s1 s2. submit_all subs s = Some (replicate (length subs) Success, s1)
     \<and> cpu_do_bookkeeping t s1 = Some s2
     \<and> calls_of (new_events s1 s2) = rev (map (\<lambda>(self, f, d, cpu'). (f, d)) subs)"
proof -
  note inv = idle_inv [OF assms(1,2,7)]
  note guard = valid_target_guard [OF assms(3)]
  from submit_all_inv [OF inv guard assms(4,5,6)] assms(8) obtain s1 new where
    sub: "submit_all subs s = Some (replicate (length subs) Success, s1)"
      "dq_inv s1 C t [] (new @ [])"
      "work_of (heap s1) new = rev (map snd (accepted (replicate (length subs) Success) subs))"
    by blast
  from sub(2) have "chain (heap s1) (qhead s1 t) new" and "\<not> qlock s1 t"
    by (simp_all add: dq_inv_def)
  from bookkeeping_chain [OF this] obtain s2 where
    "cpu_do_bookkeeping t s1 = Some s2" "calls_of (new_events s1 s2) = work_of (heap s1) new"
    by blast
  with sub(1,3) show ?thesis
    by (simp add: accepted_all)
qed

theorem drain_runs_in_reverse_witness:
  "qhead demo_state 1 = None \<and> \<not> qlock demo_state 1
   \<and> uint (1 :: 32 word) < sint (cpu_count demo_state)
   \<and> pools_disjoint demo_state {0, 1} {}
   \<and> (\<exists>s1 s2. submit_all [(0, 100, 1, 1), (1, 200, 2, 1), (0, 300, 3, 1)] demo_state
            = Some ([Success, Success, Success], s1)
          \<and> cpu_do_bookkeeping 1 s1 = Some s2
          \<and> calls_of (new_events s1 s2) = [(300, 3), (200, 2), (100, 1)])"
proof -
  have h: "qhead demo_state 1 = None" "\<not> qlock demo_state 1"
    "uint (1 :: 32 word) < sint (cpu_count demo_state)" "unat (1 :: 32 word) = 1"
    by (simp_all add: demo_state_obs)
  have subs: "\<forall>(self, f, d, cpu') \<in> set [(0, 100, 1, 1), (1, 200, 2, 1), (0 :: nat, 300 :: nat, 3 :: nat, 1 :: 32 word)].
      self \<in> {0, 1} \<and> cpu' = 1"
    by simp
  have enough: "\<forall>c \<in> {0, 1}. length (filter (\<lambda>sub. fst sub = c)
        [(0, 100, 1, 1), (1, 200, 2, 1), (0 :: nat, 300 :: nat, 3 :: nat, 1 :: 32 word)])
      \<le> length (pool demo_state c)"
    by (simp add: demo_state_obs)
  from drain_runs_in_reverse [OF h subs _ demo_pools_disjoint enough] h demo_pools_disjoint
  show ?thesis
    by (simp add: numeral_3_eq_3)
qed

text \<open>
  C2, as the code has it. Runners are allocated from the pool of the core that submits
  and freed, each once, to the pool of the core that drains. After submissions to an idle
  core \<open>t\<close> and one \<open>cpu_do_bookkeeping\<close> on \<open>t\<close>: the allocated runners are all
  different; the frees of the drain are these runners, each once, all into the pool of
  \<open>t\<close>; the number of free runners summed over the pools of \<open>C\<close> is what it was before
  the submissions; the pool of a core that neither submitted nor drained is unchanged;
  and when every submission was made on \<open>t\<close> itself, the pool of \<open>t\<close> has as many free
  runners as before.
\<close>

theorem drain_frees_to_drainer:
  assumes "qhead s t = None" and "\<not> qlock s t"
    and "uint cpu < sint (cpu_count s)" and "unat cpu = t"
    and "\<forall>(self, f, d, cpu') \<in> set subs. self \<in> C \<and> cpu' = cpu"
    and "finite C" and "pools_disjoint s C {}" and "t \<in> C"
  shows "\<exists>rs s1 s2. submit_all subs s = Some (rs, s1) \<and> cpu_do_bookkeeping t s1 = Some s2
     \<and> map fst (allocs_of (new_events s s1)) = map fst (accepted rs subs)
     \<and> distinct (map snd (allocs_of (new_events s s1)))
     \<and> frees_of (new_events s s1) = [] \<and> allocs_of (new_events s1 s2) = []
     \<and> frees_of (new_events s1 s2) = rev (map (\<lambda>(c, a). (t, a)) (allocs_of (new_events s s1)))
     \<and> (\<Sum>c \<in> C. length (pool s2 c)) = (\<Sum>c \<in> C. length (pool s c))
     \<and> (\<forall>c. c \<noteq> t \<and> c \<notin> fst ` set subs \<longrightarrow> pool s2 c = pool s c)
     \<and> (fst ` set subs \<subseteq> {t} \<longrightarrow> length (pool s2 t) = length (pool s t))"
proof -
  note inv = idle_inv [OF assms(1,2,7)]
  note guard = valid_target_guard [OF assms(3)]
  from submit_all_inv [OF inv guard assms(4,5,6)] obtain rs s1 new evs where
    sub: "submit_all subs s = Some (rs, s1)"
      "dq_inv s1 C t [] (new @ [])"
      "trace s1 = trace s @ evs" "frees_of evs = []"
      "allocs_of evs = zip (map fst (accepted rs subs)) (rev new)"
      "length new = length (accepted rs subs)"
      "(\<Sum>c \<in> C. length (pool s1 c)) + length new = (\<Sum>c \<in> C. length (pool s c))"
      "\<forall>c. c \<notin> fst ` set (accepted rs subs) \<longrightarrow> pool s1 c = pool s c"
    by blast
  from sub(2) have ch: "chain (heap s1) (qhead s1 t) new" and ul: "\<not> qlock s1 t"
    and dist: "distinct new"
    by (simp_all add: dq_inv_def)
  from bookkeeping_chain [OF ch ul] obtain s2 where
    dr: "cpu_do_bookkeeping t s1 = Some s2"
      "pool s2 = (pool s1)(t := rev new @ pool s1 t)"
      "frees_of (new_events s1 s2) = map (Pair t) new"
      "allocs_of (new_events s1 s2) = []"
    by blast
  from sub(3) have ev: "new_events s s1 = evs"
    by (rule new_events_append)
  have callers: "map fst (allocs_of evs) = map fst (accepted rs subs)"
    using sub(5,6) by simp
  have addrs: "map snd (allocs_of evs) = rev new"
    using sub(5,6) by simp
  have frees: "map (Pair t) new = rev (map (\<lambda>(c, a). (t, a)) (allocs_of evs))"
    using sub(5,6) by (simp add: zip_rev_frees)
  have total: "(\<Sum>c \<in> C. length (pool s2 c)) = (\<Sum>c \<in> C. length (pool s c))"
    using sum_pool_give [OF assms(6,8) dr(2)] sub(7) by simp
  have others: "\<forall>c. c \<noteq> t \<and> c \<notin> fst ` set subs \<longrightarrow> pool s2 c = pool s c"
    using sub(8) dr(2) accepted_callers [of rs subs] by auto
  have local: "length (pool s2 t) = length (pool s t)" if own: "fst ` set subs \<subseteq> {t}"
  proof -
    from own assms(5) have subs': "\<forall>(self, f, d, cpu') \<in> set subs. self \<in> {t} \<and> cpu' = cpu"
      by fastforce
    have "pools_disjoint s {t} {}"
      using pools_disjoint_mono [OF assms(7), of "{t}"] assms(8) by simp
    with assms(1,2) have "dq_inv s {t} t [] []"
      by (rule idle_inv)
    from submit_all_inv [OF this guard assms(4) subs'] sub(1)
    have "length (pool s1 t) + length (accepted rs subs) = length (pool s t)"
      by auto
    with sub(6) dr(2) show ?thesis
      by simp
  qed
  from sub(1) dr(1,3,4) ev callers addrs dist frees total others local sub(4) show ?thesis
    by (intro exI [of _ rs] exI [of _ s1] exI [of _ s2]) simp
qed

theorem drain_frees_to_drainer_witness:
  "qhead demo_state 1 = None \<and> \<not> qlock demo_state 1
   \<and> uint (1 :: 32 word) < sint (cpu_count demo_state)
   \<and> pools_disjoint demo_state {0, 1} {}
   \<and> (\<exists>rs s1 s2. submit_all demo_subs demo_state = Some (rs, s1)
          \<and> cpu_do_bookkeeping 1 s1 = Some s2
          \<and> map fst (allocs_of (new_events demo_state s1)) = map fst (accepted rs demo_subs)
          \<and> distinct (map snd (allocs_of (new_events demo_state s1)))
          \<and> frees_of (new_events s1 s2)
               = rev (map (\<lambda>(c, a). (1, a)) (allocs_of (new_events demo_state s1)))
          \<and> length (pool s2 0) + length (pool s2 1) = 6
          \<and> pool s2 5 = [])
   \<and> (\<exists>rs s1 s2. submit_all [(1, 100, 1, 1), (1, 200, 2, 1)] demo_state = Some (rs, s1)
          \<and> cpu_do_bookkeeping 1 s1 = Some s2
          \<and> length (pool s2 1) = 3 \<and> pool s2 0 = [10, 11, 12])"
proof -
  have h: "qhead demo_state 1 = None" "\<not> qlock demo_state 1"
    "uint (1 :: 32 word) < sint (cpu_count demo_state)" "unat (1 :: 32 word) = 1"
    by (simp_all add: demo_state_obs)
  have subs: "\<forall>(self, f, d, cpu') \<in> set demo_subs. self \<in> {0, 1} \<and> cpu' = 1"
    by (simp add: demo_subs_def)
  have own: "\<forall>(self, f, d, cpu') \<in> set [(1, 100, 1, 1), (1 :: nat, 200 :: nat, 2 :: nat, 1 :: 32 word)].
      self \<in> {0, 1} \<and> cpu' = 1"
    by simp
  have away: "(5 :: nat) \<noteq> 1 \<and> 5 \<notin> fst ` set demo_subs"
    by (simp add: demo_subs_def)
  from drain_frees_to_drainer [OF h subs _ demo_pools_disjoint] obtain rs s1 s2 where
    r: "submit_all demo_subs demo_state = Some (rs, s1)" "cpu_do_bookkeeping 1 s1 = Some s2"
      "map fst (allocs_of (new_events demo_state s1)) = map fst (accepted rs demo_subs)"
      "distinct (map snd (allocs_of (new_events demo_state s1)))"
      "frees_of (new_events s1 s2)
         = rev (map (\<lambda>(c, a). (1, a)) (allocs_of (new_events demo_state s1)))"
      "(\<Sum>c \<in> {0, 1}. length (pool s2 c)) = (\<Sum>c \<in> {0, 1}. length (pool demo_state c))"
      "\<forall>c. c \<noteq> 1 \<and> c \<notin> fst ` set demo_subs \<longrightarrow> pool s2 c = pool demo_state c"
    by blast
  from r(7) away have "pool s2 5 = pool demo_state 5"
    by blast
  with r(1-6) have first: "\<exists>rs s1 s2. submit_all demo_subs demo_state = Some (rs, s1)
          \<and> cpu_do_bookkeeping 1 s1 = Some s2
          \<and> map fst (allocs_of (new_events demo_state s1)) = map fst (accepted rs demo_subs)
          \<and> distinct (map snd (allocs_of (new_events demo_state s1)))
          \<and> frees_of (new_events s1 s2)
               = rev (map (\<lambda>(c, a). (1, a)) (allocs_of (new_events demo_state s1)))
          \<and> length (pool s2 0) + length (pool s2 1) = 6
          \<and> pool s2 5 = []"
    by (auto simp add: demo_state_obs)
  have local: "fst ` set [(1, 100, 1, 1), (1 :: nat, 200 :: nat, 2 :: nat, 1 :: 32 word)] \<subseteq> {1}"
    and other: "(0 :: nat) \<noteq> 1
      \<and> 0 \<notin> fst ` set [(1, 100, 1, 1), (1 :: nat, 200 :: nat, 2 :: nat, 1 :: 32 word)]"
    by simp_all
  from drain_frees_to_drainer [OF h own _ demo_pools_disjoint] obtain rs' s1' s2' where
    r': "submit_all [(1, 100, 1, 1), (1, 200, 2, 1)] demo_state = Some (rs', s1')"
      "cpu_do_bookkeeping 1 s1' = Some s2'"
      "\<forall>c. c \<noteq> 1
          \<and> c \<notin> fst ` set [(1, 100, 1, 1), (1 :: nat, 200 :: nat, 2 :: nat, 1 :: 32 word)]
        \<longrightarrow> pool s2' c = pool demo_state c"
      "fst ` set [(1, 100, 1, 1), (1 :: nat, 200 :: nat, 2 :: nat, 1 :: 32 word)] \<subseteq> {1}
        \<longrightarrow> length (pool s2' 1) = length (pool demo_state 1)"
    by blast
  from r'(3) other have "pool s2' 0 = pool demo_state 0"
    by blast
  moreover from r'(4) local have "length (pool s2' 1) = length (pool demo_state 1)"
    by blast
  ultimately have second: "\<exists>rs s1 s2. submit_all [(1, 100, 1, 1), (1, 200, 2, 1)] demo_state = Some (rs, s1)
          \<and> cpu_do_bookkeeping 1 s1 = Some s2
          \<and> length (pool s2 1) = 3 \<and> pool s2 0 = [10, 11, 12]"
    using r'(1,2) by (auto simp add: demo_state_obs)
  from h(1-3) demo_pools_disjoint first second show ?thesis
    by simp
qed


text \<open>
  C2 as stated fails: core 0 submits to core 1 and core 1 drains. The runner 10 is
  allocated from the pool of core 0 and freed to the pool of core 1; the pools hold 2 and
  4 free runners afterwards, 3 and 3 before.
\<close>

theorem round_trip_pool_counterexample:
  "map_option (allocs_of \<circ> trace) demo_round_trip = Some [(0, 10)]
   \<and> map_option (frees_of \<circ> trace) demo_round_trip = Some [(1, 10)]
   \<and> pool_sizes [0, 1] demo_state = [3, 3]
   \<and> map_option (pool_sizes [0, 1]) demo_round_trip = Some [2, 4]"
proof -
  have g: "\<not> cpu_count demo_state \<le> 1" "\<not> qlock demo_state (unat (1 :: 32 word))"
    "pool demo_state 0 = 10 # [11, 12]"
    by (simp_all add: demo_state_obs word_le_def)
  show ?thesis
    by (simp add: demo_round_trip_def run_on_one_success [OF g] cpu_do_bookkeeping_def
        drain_swap_def spin_lock_def spin_unlock_def store_head_def emit_def percpu_upd_def
        drain_loop.simps drain_body_def mempool_free_def pool_sizes_def pool_def qhead_def
        Let_def)
      (simp add: demo_state_def zero_percpu_def)
qed
text \<open>
  C5. Let the queue of core \<open>t\<close> hold the runners \<open>xs\<close>, and let submissions to \<open>t\<close>
  arrive while \<open>cpu_do_bookkeeping\<close> on \<open>t\<close> executes them (\<open>sched\<close>). The drain begins
  with the lock, the store of \<open>NULL\<close> to the head and the unlock, and every call comes
  after these. It calls the functions of \<open>xs\<close> and frees \<open>xs\<close>, nothing else. The accepted
  later submissions are the queue of \<open>t\<close> when it returns, and the following
  \<open>cpu_do_bookkeeping\<close> on \<open>t\<close> calls their functions.
\<close>

theorem drain_leaves_later_submissions:
  assumes "chain (heap s) (qhead s t) xs" and "xs \<noteq> []" and "distinct xs"
    and "\<not> qlock s t" and "uint cpu < sint (cpu_count s)" and "unat cpu = t"
    and "finite C" and "t \<in> C" and "pools_disjoint s C (set xs)"
    and "\<forall>b \<in> set sched. \<forall>(self, f, d, cpu') \<in> set b. self \<in> C \<and> cpu' = cpu"
  shows "\<exists>rs s1 s2 evs new. cpu_do_bookkeeping_conc t sched s = Some (rs, s1)
     \<and> new_events s s1 = [EvLock t, EvStoreHead t None, EvUnlock t] @ evs
     \<and> calls_of evs = work_of (heap s) xs
     \<and> frees_of evs = map (Pair t) xs
     \<and> chain (heap s1) (qhead s1 t) new
     \<and> work_of (heap s1) new = rev (map snd (accepted rs (concat (take (length xs) sched))))
     \<and> cpu_do_bookkeeping t s1 = Some s2
     \<and> calls_of (new_events s1 s2)
          = rev (map snd (accepted rs (concat (take (length xs) sched))))"
proof -
  note guard = valid_target_guard [OF assms(5)]
  from assms(1,2) obtain a as where xs: "xs = a # as" and hd: "qhead s t = Some a"
    by (cases xs) simp_all
  from drain_swap_obs [OF assms(4)] hd obtain s0 where
    sw: "drain_swap t s = Some (Some a, s0)" "pool s0 = pool s" "qhead s0 = (qhead s)(t := None)"
      "qlock s0 = qlock s" "heap s0 = heap s" "cpu_count s0 = cpu_count s"
      "trace s0 = trace s @ [EvLock t, EvStoreHead t None, EvUnlock t]"
    by auto
  from assms(1) hd sw(5) have ch0: "chain (heap s0) (Some a) xs"
    by simp
  from assms(3,4,9) sw(2-5) have inv0: "dq_inv s0 C t xs []"
    by (simp add: dq_inv_def pools_disjoint_def)
  from guard sw(6) have guard0: "\<not> cpu_count s0 \<le> cpu"
    by simp
  from drain_loop_conc_inv [OF ch0 inv0 assms(8,7) guard0 assms(6,10)]
  obtain rs s1 new evs where
    dl: "drain_loop_conc t a sched s0 = Some (rs, s1)"
      "dq_inv s1 C t [] (new @ [])"
      "work_of (heap s1) new = rev (map snd (accepted rs (concat (take (length xs) sched))))"
      "trace s1 = trace s0 @ evs" "calls_of evs = work_of (heap s0) xs"
      "frees_of evs = map (Pair t) xs"
    by blast
  from hd sw(1) dl(1) have run: "cpu_do_bookkeeping_conc t sched s = Some (rs, s1)"
    by (simp add: cpu_do_bookkeeping_conc_def qhead_def)
  from sw(7) dl(4) have ev: "new_events s s1 = [EvLock t, EvStoreHead t None, EvUnlock t] @ evs"
    by (simp add: new_events_def)
  from dl(2) have ch1: "chain (heap s1) (qhead s1 t) new" and ul1: "\<not> qlock s1 t"
    by (simp_all add: dq_inv_def)
  from bookkeeping_chain [OF ch1 ul1] obtain s2 where
    nx: "cpu_do_bookkeeping t s1 = Some s2" "calls_of (new_events s1 s2) = work_of (heap s1) new"
    by blast
  from run ev dl(3,5,6) sw(5) ch1 nx show ?thesis
    by (intro exI [of _ rs] exI [of _ s1] exI [of _ s2] exI [of _ evs] exI [of _ new]) simp
qed

theorem drain_leaves_later_submissions_witness:
  "chain (heap demo_queued) (qhead demo_queued 1) [11, 10]
   \<and> \<not> qlock demo_queued 1 \<and> uint (1 :: 32 word) < sint (cpu_count demo_queued)
   \<and> pools_disjoint demo_queued {0, 1} (set [11, 10])
   \<and> (\<exists>s1 s2 evs new. cpu_do_bookkeeping_conc 1 demo_sched demo_queued
            = Some ([Success, Success], s1)
        \<and> new_events demo_queued s1 = [EvLock 1, EvStoreHead 1 None, EvUnlock 1] @ evs
        \<and> calls_of evs = [(200, 2), (100, 1)]
        \<and> frees_of evs = [(1, 11), (1, 10)]
        \<and> chain (heap s1) (qhead s1 1) new
        \<and> work_of (heap s1) new = [(400, 4), (300, 3)]
        \<and> cpu_do_bookkeeping 1 s1 = Some s2
        \<and> calls_of (new_events s1 s2) = [(400, 4), (300, 3)])"
proof -
  have h: "chain (heap demo_queued) (qhead demo_queued 1) [11, 10]" "[11, 10 :: nat] \<noteq> []"
    "distinct [11, 10 :: nat]" "\<not> qlock demo_queued 1"
    "uint (1 :: 32 word) < sint (cpu_count demo_queued)" "unat (1 :: 32 word) = 1"
    by (simp_all add: demo_queued_obs)
  have pd: "pools_disjoint demo_queued {0, 1} (set [11, 10])"
    by (simp add: pools_disjoint_def demo_queued_obs)
  have sch: "\<forall>b \<in> set demo_sched. \<forall>(self, f, d, cpu') \<in> set b. self \<in> {0, 1} \<and> cpu' = 1"
    by (simp add: demo_sched_def)
  from drain_leaves_later_submissions [OF h _ _ pd sch] obtain rs s1 s2 evs new where
    r: "cpu_do_bookkeeping_conc 1 demo_sched demo_queued = Some (rs, s1)"
      "new_events demo_queued s1 = [EvLock 1, EvStoreHead 1 None, EvUnlock 1] @ evs"
      "calls_of evs = work_of (heap demo_queued) [11, 10]"
      "frees_of evs = map (Pair 1) [11, 10]"
      "chain (heap s1) (qhead s1 1) new"
      "work_of (heap s1) new = rev (map snd (accepted rs (concat (take (length [11, 10 :: nat]) demo_sched))))"
      "cpu_do_bookkeeping 1 s1 = Some s2"
      "calls_of (new_events s1 s2) = rev (map snd (accepted rs (concat (take (length [11, 10 :: nat]) demo_sched))))"
    by auto
  from r(1) demo_conc_returns have rs: "rs = [Success, Success]"
    by simp
  have "\<exists>s1 s2 evs new. cpu_do_bookkeeping_conc 1 demo_sched demo_queued
            = Some ([Success, Success], s1)
        \<and> new_events demo_queued s1 = [EvLock 1, EvStoreHead 1 None, EvUnlock 1] @ evs
        \<and> calls_of evs = [(200, 2), (100, 1)]
        \<and> frees_of evs = [(1, 11), (1, 10)]
        \<and> chain (heap s1) (qhead s1 1) new
        \<and> work_of (heap s1) new = [(400, 4), (300, 3)]
        \<and> cpu_do_bookkeeping 1 s1 = Some s2
        \<and> calls_of (new_events s1 s2) = [(400, 4), (300, 3)]"
    using r rs
    by (intro exI [of _ s1] exI [of _ s2] exI [of _ evs] exI [of _ new])
      (simp add: demo_queued_obs demo_sched_def)
  with h(1,4,5) pd show ?thesis
    by simp
qed

section \<open>Properties of the topology scan\<close>

lemmas scan_eval = starts_with_def sscanf_colon_int_def is_space_def is_digit_def
  digits_value_def Let_def

lemma apicid_not_processor:
  assumes "starts_with ''apicid'' buf"
  shows "\<not> starts_with ''processor'' buf"
  using assms by (cases buf) (simp_all add: starts_with_def)

lemma scan_loop_malformed:
  assumes "\<exists>l \<in> set lines. malformed l"
    and "count + length (filter (starts_with ''apicid'') lines) \<le> ncpu"
  shows "\<exists>tbl'. scan_loop ncpu lines err p count tbl = Done (Failure EIO, tbl')"
  using assms
proof (induction lines arbitrary: p count tbl)
  case Nil
  then show ?case by simp
next
  case (Cons buf rest)
  show ?case
  proof (cases "malformed buf")
    case True
    then show ?thesis
      by (auto simp add: malformed_def split: option.splits)
  next
    case False
    with Cons.prems(1) have later: "\<exists>l \<in> set rest. malformed l"
      by simp
    show ?thesis
    proof (cases "starts_with ''apicid'' buf")
      case True
      with Cons.prems(2) have room: "count < ncpu"
        and rest: "(count + 1) + length (filter (starts_with ''apicid'') rest) \<le> ncpu"
        by simp_all
      from False True obtain v where v: "sscanf_colon_int buf = Some v"
        by (auto simp add: malformed_def)
      from Cons.IH [OF later rest] room v True show ?thesis
        by (auto split: option.splits)
    next
      case napic: False
      with Cons.prems(2) have rest: "count + length (filter (starts_with ''apicid'') rest) \<le> ncpu"
        by simp
      from Cons.IH [OF later rest] napic False show ?thesis
        by (auto simp add: malformed_def split: option.splits)
    qed
  qed
qed

text \<open>
  C3, as the code has it. The scan returns \<open>-EIO\<close> when the source cannot be opened, and
  when some line that starts with \<open>processor\<close> or \<open>apicid\<close> is not read by \<open>sscanf\<close>
  (the table having room for the identifier records of the source). The order of the
  records is not looked at: an identifier record that can be read is stored in the next
  slot together with the current value \<open>p\<close> of the local \<open>processor\<close>, whether a
  processor record came before it or not, and the scan goes on.
\<close>

theorem scan_failure_cases:
  "parse_cpuinfo ncpu None junk s = Done (Failure EIO, emit EvFopen s)
   \<and> ((\<exists>l \<in> set (fgets_lines f). malformed l)
        \<and> length (filter (starts_with ''apicid'') (fgets_lines f)) \<le> ncpu
      \<longrightarrow> (\<exists>s'. parse_cpuinfo ncpu (Some f) junk s = Done (Failure EIO, s')))
   \<and> (starts_with ''apicid'' buf \<and> sscanf_colon_int buf = Some v \<and> count < ncpu
      \<longrightarrow> scan_loop ncpu (buf # rest) err p count tbl
          = scan_loop ncpu rest err p (count + 1)
              (tbl(count := \<lparr>am_processor = p, am_apicid = word_of_int v\<rparr>)))"
proof (intro conjI impI)
  show "parse_cpuinfo ncpu None junk s = Done (Failure EIO, emit EvFopen s)"
    by (simp add: parse_cpuinfo_def)
next
  assume "(\<exists>l \<in> set (fgets_lines f). malformed l)
      \<and> length (filter (starts_with ''apicid'') (fgets_lines f)) \<le> ncpu"
  then have "\<exists>tbl'. scan_loop ncpu (fgets_lines f) (fgets_error f) junk 0
      (apicid_map (emit EvFopen s)) = Done (Failure EIO, tbl')"
    by (intro scan_loop_malformed) simp_all
  then show "\<exists>s'. parse_cpuinfo ncpu (Some f) junk s = Done (Failure EIO, s')"
    by (auto simp add: parse_cpuinfo_def Let_def)
next
  assume "starts_with ''apicid'' buf \<and> sscanf_colon_int buf = Some v \<and> count < ncpu"
  then show "scan_loop ncpu (buf # rest) err p count tbl
      = scan_loop ncpu rest err p (count + 1)
          (tbl(count := \<lparr>am_processor = p, am_apicid = word_of_int v\<rparr>))"
    using apicid_not_processor [of buf] by simp
qed

theorem scan_failure_cases_witness:
  "malformed ''processor 1''
   \<and> parse_cpuinfo 4 (Some \<lparr>fgets_lines = demo_malformed, fgets_error = False\<rparr>) 0 demo_state
       = Done (Failure EIO,
           demo_state\<lparr>apicid_map := (apicid_map demo_state)
               (0 := \<lparr>am_processor = 0, am_apicid = 4\<rparr>),
             trace := [EvFopen, EvFclose]\<rparr>)
   \<and> parse_cpuinfo 4 None 0 demo_state = Done (Failure EIO, demo_state\<lparr>trace := [EvFopen]\<rparr>)
   \<and> scan_loop 4 [''apicid : 6''] False 5 1 (apicid_map demo_state)
       = Done (Success, (apicid_map demo_state)(1 := \<lparr>am_processor = 5, am_apicid = 6\<rparr>))"
proof -
  have bad: "malformed ''processor 1''"
    by (simp add: malformed_def scan_eval)
  then have h: "(\<exists>l \<in> set (fgets_lines \<lparr>fgets_lines = demo_malformed, fgets_error = False\<rparr>).
        malformed l)
      \<and> length (filter (starts_with ''apicid'')
          (fgets_lines \<lparr>fgets_lines = demo_malformed, fgets_error = False\<rparr>)) \<le> 4"
    by (simp add: demo_malformed_def)
  have rec: "starts_with ''apicid'' ''apicid : 6'' \<and> sscanf_colon_int ''apicid : 6'' = Some 6
      \<and> (1 :: nat) < 4"
    by (simp add: scan_eval)
  note inst = scan_failure_cases [of 4 0 demo_state
      "\<lparr>fgets_lines = demo_malformed, fgets_error = False\<rparr>" "''apicid : 6''" 6 1 "[]" False 5
      "apicid_map demo_state"]
  from inst h have "\<exists>s'. parse_cpuinfo 4
      (Some \<lparr>fgets_lines = demo_malformed, fgets_error = False\<rparr>) 0 demo_state
      = Done (Failure EIO, s')"
    by blast
  then have second: "parse_cpuinfo 4
      (Some \<lparr>fgets_lines = demo_malformed, fgets_error = False\<rparr>) 0 demo_state
      = Done (Failure EIO,
           demo_state\<lparr>apicid_map := (apicid_map demo_state)
               (0 := \<lparr>am_processor = 0, am_apicid = 4\<rparr>),
             trace := [EvFopen, EvFclose]\<rparr>)"
    by (simp add: parse_cpuinfo_def demo_malformed_def scan_eval emit_def demo_state_def)
  from inst have first: "parse_cpuinfo 4 None 0 demo_state
      = Done (Failure EIO, demo_state\<lparr>trace := [EvFopen]\<rparr>)"
    by (simp add: emit_def demo_state_def)
  from inst rec have third: "scan_loop 4 [''apicid : 6''] False 5 1 (apicid_map demo_state)
      = Done (Success, (apicid_map demo_state)(1 := \<lparr>am_processor = 5, am_apicid = 6\<rparr>))"
    by simp
  from bad first second third show ?thesis
    by simp
qed


text \<open>
  C3 as stated fails: the second identifier record of this source has no processor record
  of its own, and the scan succeeds and records it under the index 0 of the record before.
\<close>

theorem scan_unordered_counterexample:
  "parse_cpuinfo 4 (Some \<lparr>fgets_lines = demo_unordered, fgets_error = False\<rparr>) 0 demo_state
   = Done (Success,
       demo_state\<lparr>apicid_map := (apicid_map demo_state)
           (0 := \<lparr>am_processor = 0, am_apicid = 4\<rparr>, 1 := \<lparr>am_processor = 0, am_apicid = 6\<rparr>),
         trace := [EvFopen, EvFclose]\<rparr>)"
  by (simp add: parse_cpuinfo_def demo_unordered_def scan_eval emit_def demo_state_def)

section \<open>Properties of the initialisation\<close>

text \<open>
  C7. When the detected count is not in \<open>(0, NCPU]\<close>, \<open>cpu_init\<close> returns \<open>-EINVAL\<close>. The
  state it leaves differs from the one before only in \<open>cpu_count\<close>, which holds the
  detected value: the datastore is not created, the source is not opened, the table is
  not written, and the event log is unchanged.
\<close>

theorem init_count_out_of_range:
  assumes "sint (nprocs env) \<le> 0 \<or> int ncpu < sint (nprocs env)"
  shows "cpu_init ncpu env s = Done (Failure EINVAL, s\<lparr>cpu_count := nprocs env\<rparr>)"
  using assms by (auto simp add: cpu_init_def Let_def)

theorem init_count_out_of_range_witness:
  "(sint (nprocs (demo_init_env\<lparr>nprocs := 0\<rparr>)) \<le> 0
      \<or> int 128 < sint (nprocs (demo_init_env\<lparr>nprocs := 0\<rparr>)))
   \<and> cpu_init 128 (demo_init_env\<lparr>nprocs := 0\<rparr>) demo_state
       = Done (Failure EINVAL, demo_state\<lparr>cpu_count := 0\<rparr>)
   \<and> cpu_init 128 (demo_init_env\<lparr>nprocs := 129\<rparr>) demo_state
       = Done (Failure EINVAL, demo_state\<lparr>cpu_count := 129\<rparr>)
   \<and> cpu_init 128 (demo_init_env\<lparr>nprocs := - 1\<rparr>) demo_state
       = Done (Failure EINVAL, demo_state\<lparr>cpu_count := - 1\<rparr>)"
  using init_count_out_of_range [of "demo_init_env\<lparr>nprocs := 0\<rparr>" 128 demo_state]
    init_count_out_of_range [of "demo_init_env\<lparr>nprocs := 129\<rparr>" 128 demo_state]
    init_count_out_of_range [of "demo_init_env\<lparr>nprocs := - 1\<rparr>" 128 demo_state]
  by (simp add: demo_init_env_def)

lemma init_one_upto_registry:
  assumes "\<not> cpu_count s \<le> cpu" and "setaffinity_ret env = 0" and "getcpu_ret env = 0"
    and "getcpu_cpu env = cpu" and "pages env = Some a" and "dune_ret env = 0"
  shows "cpu_init_one ncpu env cpu s =
    (let i = lookup_loop ncpu (apicid_map s) cpu 0;
         s5 = s\<lparr>percpu_offsets := (percpu_offsets s)(unat cpu := Some (a + PERCPU_DUNE_LEN)),
                pcpu := (pcpu s)(unat cpu := zero_percpu\<lparr>cpu_numa_node := getcpu_node env,
                          cpu_id := cpu, apicid := am_apicid (apicid_map s i)\<rparr>),
                window_head := (window_head s)(a := Some (a + PERCPU_DUNE_LEN)),
                log_is_early_boot := False,
                trace := trace s @ [EvSetAffinity cpu, EvGetCpu,
                  EvAllocPages (div_up (percpu_len env + PERCPU_DUNE_LEN) (pgsize_2mb env))
                    (getcpu_node env),
                  EvDuneEnter a, EvMempoolCreate cpu]\<rparr>
     in if \<not> i < ncpu then Fault AssertFailed
        else if mempool_create_ret env \<noteq> 0
        then Done (Failure (ECODE (mempool_create_ret env)), s5)
        else Done (Success,
               s5\<lparr>pcpu := (pcpu s5)(unat cpu :=
                     (pcpu s5 (unat cpu))\<lparr>runners_mempool := pool_objects env\<rparr>)\<rparr>))"
  using assms
  by (auto simp add: cpu_init_one_def cpu_init_percpu_def emit_def percpu_upd_def Let_def
      zero_percpu_def intro!: sys.equality)


lemma lookup_loop_miss:
  assumes "\<forall>j. i \<le> j \<and> j < ncpu \<longrightarrow> am_processor (tbl j) \<noteq> cpu" and "i \<le> ncpu"
  shows "lookup_loop ncpu tbl cpu i = ncpu"
  using assms
proof (induction ncpu tbl cpu i rule: lookup_loop.induct)
  case (1 ncpu tbl cpu i)
  show ?case
  proof (cases "i < ncpu")
    case True
    with "1.prems" have ne: "am_processor (tbl i) \<noteq> cpu"
      by simp
    have "lookup_loop ncpu tbl cpu (i + 1) = ncpu"
      using "1.IH" [OF True ne] "1.prems" True by simp
    with ne True show ?thesis
      by (subst lookup_loop.simps) simp
  next
    case False
    with "1.prems" show ?thesis
      by (subst lookup_loop.simps) simp
  qed
qed

lemma lookup_loop_first:
  assumes "i \<le> k" and "k < ncpu" and "am_processor (tbl k) = cpu"
    and "\<forall>j. i \<le> j \<and> j < k \<longrightarrow> am_processor (tbl j) \<noteq> cpu"
  shows "lookup_loop ncpu tbl cpu i = k"
  using assms
proof (induction ncpu tbl cpu i rule: lookup_loop.induct)
  case (1 ncpu tbl cpu i)
  show ?case
  proof (cases "i = k")
    case True
    with "1.prems" show ?thesis
      by (subst lookup_loop.simps) simp
  next
    case False
    with "1.prems" have lt: "i < k" and ne: "am_processor (tbl i) \<noteq> cpu"
      by simp_all
    from lt "1.prems" have below: "i < ncpu"
      by simp
    have "lookup_loop ncpu tbl cpu (i + 1) = k"
      using "1.IH" [OF below ne] "1.prems" lt by simp
    with below ne show ?thesis
      by (subst lookup_loop.simps) simp
  qed
qed

text \<open>
  C6. Past the range check, \<open>cpu_init_one\<close> calls \<open>sched_setaffinity\<close>, \<open>getcpu\<close>,
  \<open>mem_alloc_pages_onnode\<close>, \<open>dune_enter_ex\<close>, fills in the per-core variables and calls
  \<open>mempool_create\<close>, in this order. Each case below names the first step that fails, the
  value returned and the state left: the event log holds the calls up to the failing one
  and no later one, and what earlier steps wrote (the window \<open>W\<close>, the per-core variables
  \<open>reg\<close>) is still there. The report of a different core by \<open>getcpu\<close> is found after that
  call.
\<close>

theorem bring_up_first_failure:
  fixes s :: sys and env :: bringup_env and cpu :: "32 word" and a :: addr and i ncpu :: nat
  defines "aff \<equiv> EvSetAffinity cpu"
    and "win \<equiv> EvAllocPages (div_up (percpu_len env + PERCPU_DUNE_LEN) (pgsize_2mb env))
                  (getcpu_node env)"
    and "W \<equiv> s\<lparr>percpu_offsets := (percpu_offsets s)(unat cpu := Some (a + PERCPU_DUNE_LEN)),
                 pcpu := (pcpu s)(unat cpu := zero_percpu),
                 window_head := (window_head s)(a := Some (a + PERCPU_DUNE_LEN))\<rparr>"
    and "reg \<equiv> zero_percpu\<lparr>cpu_numa_node := getcpu_node env, cpu_id := cpu,
                   apicid := am_apicid (apicid_map s i)\<rparr>"
    and "ok2 \<equiv> setaffinity_ret env = 0 \<and> getcpu_ret env = 0 \<and> getcpu_cpu env = cpu"
    and "hit \<equiv> i < ncpu \<and> am_processor (apicid_map s i) = cpu
                 \<and> (\<forall>j < i. am_processor (apicid_map s j) \<noteq> cpu)"
  assumes guard: "\<not> cpu_count s \<le> cpu"
  shows
    "(setaffinity_ret env \<noteq> 0 \<longrightarrow>
        cpu_init_one ncpu env cpu s = Done (Failure EPERM, s\<lparr>trace := trace s @ [aff]\<rparr>))
     \<and> (setaffinity_ret env = 0 \<and> getcpu_ret env \<noteq> 0 \<longrightarrow>
        cpu_init_one ncpu env cpu s =
          Done (Failure ENOSYS, s\<lparr>trace := trace s @ [aff, EvGetCpu]\<rparr>))
     \<and> (setaffinity_ret env = 0 \<and> getcpu_ret env = 0 \<and> getcpu_cpu env \<noteq> cpu \<longrightarrow>
        cpu_init_one ncpu env cpu s =
          Done (Failure EINVAL, s\<lparr>trace := trace s @ [aff, EvGetCpu]\<rparr>))
     \<and> (ok2 \<and> pages env = None \<longrightarrow>
        cpu_init_one ncpu env cpu s =
          Done (Failure ENOMEM, s\<lparr>trace := trace s @ [aff, EvGetCpu, win]\<rparr>))
     \<and> (ok2 \<and> pages env = Some a \<and> dune_ret env \<noteq> 0 \<longrightarrow>
        cpu_init_one ncpu env cpu s =
          Done (Failure (ECODE (dune_ret env)),
            W\<lparr>trace := trace s @ [aff, EvGetCpu, win, EvDuneEnter a]\<rparr>))
     \<and> (ok2 \<and> pages env = Some a \<and> dune_ret env = 0
          \<and> (\<forall>j < ncpu. am_processor (apicid_map s j) \<noteq> cpu) \<longrightarrow>
        cpu_init_one ncpu env cpu s = Fault AssertFailed)
     \<and> (ok2 \<and> pages env = Some a \<and> dune_ret env = 0 \<and> hit \<and> mempool_create_ret env \<noteq> 0 \<longrightarrow>
        cpu_init_one ncpu env cpu s =
          Done (Failure (ECODE (mempool_create_ret env)),
            W\<lparr>pcpu := (pcpu s)(unat cpu := reg), log_is_early_boot := False,
              trace := trace s @ [aff, EvGetCpu, win, EvDuneEnter a, EvMempoolCreate cpu]\<rparr>))
     \<and> (ok2 \<and> pages env = Some a \<and> dune_ret env = 0 \<and> hit \<and> mempool_create_ret env = 0 \<longrightarrow>
        cpu_init_one ncpu env cpu s =
          Done (Success,
            W\<lparr>pcpu := (pcpu s)(unat cpu := reg\<lparr>runners_mempool := pool_objects env\<rparr>),
              log_is_early_boot := False,
              trace := trace s @ [aff, EvGetCpu, win, EvDuneEnter a, EvMempoolCreate cpu]\<rparr>))"
proof -
  have early: "setaffinity_ret env \<noteq> 0 \<longrightarrow>
      cpu_init_one ncpu env cpu s = Done (Failure EPERM, s\<lparr>trace := trace s @ [aff]\<rparr>)"
    using guard by (simp add: cpu_init_one_def emit_def aff_def)
  have query: "setaffinity_ret env = 0 \<and> getcpu_ret env \<noteq> 0 \<longrightarrow>
      cpu_init_one ncpu env cpu s = Done (Failure ENOSYS, s\<lparr>trace := trace s @ [aff, EvGetCpu]\<rparr>)"
    using guard by (simp add: cpu_init_one_def emit_def aff_def Let_def)
  have moved: "setaffinity_ret env = 0 \<and> getcpu_ret env = 0 \<and> getcpu_cpu env \<noteq> cpu \<longrightarrow>
      cpu_init_one ncpu env cpu s = Done (Failure EINVAL, s\<lparr>trace := trace s @ [aff, EvGetCpu]\<rparr>)"
    using guard by (auto simp add: cpu_init_one_def emit_def aff_def Let_def)
  have window: "ok2 \<and> pages env = None \<longrightarrow>
      cpu_init_one ncpu env cpu s =
        Done (Failure ENOMEM, s\<lparr>trace := trace s @ [aff, EvGetCpu, win]\<rparr>)"
    using guard
    by (simp add: cpu_init_one_def cpu_init_percpu_def emit_def aff_def win_def ok2_def Let_def)
  have enter: "ok2 \<and> pages env = Some a \<and> dune_ret env \<noteq> 0 \<longrightarrow>
      cpu_init_one ncpu env cpu s =
        Done (Failure (ECODE (dune_ret env)),
          W\<lparr>trace := trace s @ [aff, EvGetCpu, win, EvDuneEnter a]\<rparr>)"
    using guard
    by (auto simp add: cpu_init_one_def cpu_init_percpu_def emit_def percpu_upd_def aff_def
        win_def ok2_def W_def Let_def intro!: sys.equality)
  have assertion: "ok2 \<and> pages env = Some a \<and> dune_ret env = 0
        \<and> (\<forall>j < ncpu. am_processor (apicid_map s j) \<noteq> cpu) \<longrightarrow>
      cpu_init_one ncpu env cpu s = Fault AssertFailed"
  proof (intro impI, elim conjE)
    assume ok: ok2 and pg: "pages env = Some a" and dn: "dune_ret env = 0"
      and none: "\<forall>j < ncpu. am_processor (apicid_map s j) \<noteq> cpu"
    from none have "lookup_loop ncpu (apicid_map s) cpu 0 = ncpu"
      by (intro lookup_loop_miss) simp_all
    with ok pg dn guard show "cpu_init_one ncpu env cpu s = Fault AssertFailed"
      by (simp add: init_one_upto_registry ok2_def)
  qed
  have found: "hit \<Longrightarrow> lookup_loop ncpu (apicid_map s) cpu 0 = i"
    unfolding hit_def by (intro lookup_loop_first) simp_all
  have pool_failed: "ok2 \<and> pages env = Some a \<and> dune_ret env = 0 \<and> hit
        \<and> mempool_create_ret env \<noteq> 0 \<longrightarrow>
      cpu_init_one ncpu env cpu s =
        Done (Failure (ECODE (mempool_create_ret env)),
          W\<lparr>pcpu := (pcpu s)(unat cpu := reg), log_is_early_boot := False,
            trace := trace s @ [aff, EvGetCpu, win, EvDuneEnter a, EvMempoolCreate cpu]\<rparr>)"
  proof (intro impI, elim conjE)
    assume ok: ok2 and pg: "pages env = Some a" and dn: "dune_ret env = 0" and h: hit
      and pl: "mempool_create_ret env \<noteq> 0"
    from h have "i < ncpu" by (simp add: hit_def)
    with ok pg dn guard pl found [OF h] show "cpu_init_one ncpu env cpu s =
        Done (Failure (ECODE (mempool_create_ret env)),
          W\<lparr>pcpu := (pcpu s)(unat cpu := reg), log_is_early_boot := False,
            trace := trace s @ [aff, EvGetCpu, win, EvDuneEnter a, EvMempoolCreate cpu]\<rparr>)"
      by (auto simp add: init_one_upto_registry ok2_def W_def reg_def aff_def win_def Let_def
          intro!: sys.equality)
  qed
  have complete: "ok2 \<and> pages env = Some a \<and> dune_ret env = 0 \<and> hit
        \<and> mempool_create_ret env = 0 \<longrightarrow>
      cpu_init_one ncpu env cpu s =
        Done (Success,
          W\<lparr>pcpu := (pcpu s)(unat cpu := reg\<lparr>runners_mempool := pool_objects env\<rparr>),
            log_is_early_boot := False,
            trace := trace s @ [aff, EvGetCpu, win, EvDuneEnter a, EvMempoolCreate cpu]\<rparr>)"
  proof (intro impI, elim conjE)
    assume ok: ok2 and pg: "pages env = Some a" and dn: "dune_ret env = 0" and h: hit
      and pl: "mempool_create_ret env = 0"
    from h have "i < ncpu" by (simp add: hit_def)
    with ok pg dn guard pl found [OF h] show "cpu_init_one ncpu env cpu s =
        Done (Success,
          W\<lparr>pcpu := (pcpu s)(unat cpu := reg\<lparr>runners_mempool := pool_objects env\<rparr>),
            log_is_early_boot := False,
            trace := trace s @ [aff, EvGetCpu, win, EvDuneEnter a, EvMempoolCreate cpu]\<rparr>)"
      by (auto simp add: init_one_upto_registry ok2_def W_def reg_def aff_def win_def Let_def
          intro!: sys.equality)
  qed
  from early query moved window enter assertion pool_failed complete show ?thesis
    by (intro conjI)
qed


theorem bring_up_first_failure_witness:
  "\<not> cpu_count demo_topology \<le> 1
   \<and> cpu_init_one 4 (demo_bringup_env\<lparr>setaffinity_ret := - 1\<rparr>) 1 demo_topology
       = Done (Failure EPERM, demo_topology\<lparr>trace := [EvSetAffinity 1]\<rparr>)
   \<and> cpu_init_one 4 (demo_bringup_env\<lparr>getcpu_ret := - 1\<rparr>) 1 demo_topology
       = Done (Failure ENOSYS, demo_topology\<lparr>trace := [EvSetAffinity 1, EvGetCpu]\<rparr>)
   \<and> cpu_init_one 4 (demo_bringup_env\<lparr>getcpu_cpu := 0\<rparr>) 1 demo_topology
       = Done (Failure EINVAL, demo_topology\<lparr>trace := [EvSetAffinity 1, EvGetCpu]\<rparr>)
   \<and> cpu_init_one 4 (demo_bringup_env\<lparr>pages := None\<rparr>) 1 demo_topology
       = Done (Failure ENOMEM,
           demo_topology\<lparr>trace := [EvSetAffinity 1, EvGetCpu, EvAllocPages 1 0]\<rparr>)
   \<and> cpu_init_one 4 (demo_bringup_env\<lparr>dune_ret := - 5\<rparr>) 1 demo_topology
       = Done (Failure (ECODE (- 5)),
           demo_topology\<lparr>percpu_offsets := (percpu_offsets demo_topology)(1 := Some 4194816),
             pcpu := (pcpu demo_topology)(1 := zero_percpu),
             window_head := (window_head demo_topology)(4194304 := Some 4194816),
             trace := [EvSetAffinity 1, EvGetCpu, EvAllocPages 1 0, EvDuneEnter 4194304]\<rparr>)
   \<and> cpu_init_one 4 demo_bringup_env 1 demo_state = Fault AssertFailed
   \<and> cpu_init_one 4 (demo_bringup_env\<lparr>mempool_create_ret := - 12\<rparr>) 1 demo_topology
       = Done (Failure (ECODE (- 12)),
           demo_topology\<lparr>percpu_offsets := (percpu_offsets demo_topology)(1 := Some 4194816),
             pcpu := (pcpu demo_topology)(1 := zero_percpu\<lparr>cpu_id := 1, apicid := 6\<rparr>),
             window_head := (window_head demo_topology)(4194304 := Some 4194816),
             log_is_early_boot := False,
             trace := [EvSetAffinity 1, EvGetCpu, EvAllocPages 1 0, EvDuneEnter 4194304,
                       EvMempoolCreate 1]\<rparr>)
   \<and> cpu_init_one 4 demo_bringup_env 1 demo_topology
       = Done (Success,
           demo_topology\<lparr>percpu_offsets := (percpu_offsets demo_topology)(1 := Some 4194816),
             pcpu := (pcpu demo_topology)
               (1 := zero_percpu\<lparr>cpu_id := 1, apicid := 6, runners_mempool := [30, 31]\<rparr>),
             window_head := (window_head demo_topology)(4194304 := Some 4194816),
             log_is_early_boot := False,
             trace := [EvSetAffinity 1, EvGetCpu, EvAllocPages 1 0, EvDuneEnter 4194304,
                       EvMempoolCreate 1]\<rparr>)"
proof -
  have g1: "\<not> cpu_count demo_topology \<le> 1" and g2: "\<not> cpu_count demo_state \<le> 1"
    by (simp_all add: demo_topology_def demo_state_def word_le_def)
  have none: "\<forall>j < 4. am_processor (apicid_map demo_state j) \<noteq> (1 :: 32 word)"
    by (simp add: demo_state_def)
  have first: "(1 :: nat) < 4 \<and> am_processor (apicid_map demo_topology 1) = (1 :: 32 word)
      \<and> (\<forall>j < 1. am_processor (apicid_map demo_topology j) \<noteq> (1 :: 32 word))"
    by (simp add: demo_topology_def)
  have tr: "trace demo_topology = []"
    by (simp add: demo_topology_def demo_state_def)
  note inst = bring_up_first_failure [OF g1, of _ 4 4194304 1]
  show ?thesis
    using g1 first none tr
      inst [of "demo_bringup_env\<lparr>setaffinity_ret := - 1\<rparr>"]
      inst [of "demo_bringup_env\<lparr>getcpu_ret := - 1\<rparr>"]
      inst [of "demo_bringup_env\<lparr>getcpu_cpu := 0\<rparr>"]
      inst [of "demo_bringup_env\<lparr>pages := None\<rparr>"]
      inst [of "demo_bringup_env\<lparr>dune_ret := - 5\<rparr>"]
      bring_up_first_failure [OF g2, of demo_bringup_env 4 4194304 1]
      inst [of "demo_bringup_env\<lparr>mempool_create_ret := - 12\<rparr>"]
      inst [of demo_bringup_env]
    by (auto simp add: demo_bringup_env_def PERCPU_DUNE_LEN_def div_up_def zero_percpu_def
        demo_topology_def demo_state_def intro!: sys.equality)
qed

lemma small_sint_uint:
  assumes "uint (w :: 32 word) < 2 ^ 31"
  shows "sint w = uint w"
proof -
  have "(0 :: int) \<le> uint w"
    by simp
  then have lo: "- (2147483648 :: int) \<le> uint w"
    by linarith
  have "sint w = signed_take_bit 31 (uint w)"
    by (simp add: sint_uint)
  also have "\<dots> = uint w"
    using assms lo by (intro signed_take_bit_int_eq_self) simp_all
  finally show ?thesis .
qed

lemma logical_index_eq:
  assumes "uint cpu < sint (cc :: 32 word)"
  shows "(p = (cpu :: 32 word)) \<longleftrightarrow> sint p = uint cpu"
proof
  assume "p = cpu"
  moreover have "uint cpu < 2 ^ 31"
    using assms sint_lt [of cc] by simp
  ultimately show "sint p = uint cpu"
    by (simp add: small_sint_uint)
next
  assume eq: "sint p = uint cpu"
  then have "0 \<le> sint p"
    by simp
  then have "sint p = uint p"
    by (rule sint_nonneg_uint)
  with eq have "uint p = uint cpu"
    by simp
  then show "p = cpu"
    by (simp add: word_uint_eq_iff)
qed

lemma first_match_exists:
  assumes "P (k :: nat)"
  shows "\<exists>i. i \<le> k \<and> P i \<and> (\<forall>j < i. \<not> P j)"
  using assms
proof (induction k rule: less_induct)
  case (less k)
  show ?case
  proof (cases "\<exists>j < k. P j")
    case True
    then obtain j where "j < k" and "P j"
      by blast
    from less.IH [OF this] obtain i where "i \<le> j" "P i" "\<forall>j < i. \<not> P j"
      by blast
    with \<open>j < k\<close> show ?thesis
      by (intro exI [of _ i]) simp
  next
    case False
    with less.prems show ?thesis
      by (intro exI [of _ k]) simp
  qed
qed

text \<open>
  The lookup of the registry population, over the \<open>NCPU\<close> slots of the static array
  \<open>apicid_map\<close>, written by the scan or not. When the bring-up of core \<open>cpu\<close> reaches it,
  the assertion fails exactly when no slot holds the index \<open>cpu\<close>. When some slot holds
  it, the call returns, and the hardware identifier stored for the core is the one of the
  first such slot: the one the scan recorded, when it recorded one for the core, since
  the slots it wrote come first.
\<close>

lemma registry_lookup_slots:
  assumes target: "uint cpu < sint (cpu_count s)"
    and "setaffinity_ret env = 0" and "getcpu_ret env = 0" and "getcpu_cpu env = cpu"
    and "pages env = Some a" and "dune_ret env = 0"
  shows "(cpu_init_one ncpu env cpu s = Fault AssertFailed
            \<longleftrightarrow> (\<forall>i < ncpu. sint (am_processor (apicid_map s i)) \<noteq> uint cpu))
         \<and> (\<forall>i < ncpu. sint (am_processor (apicid_map s i)) = uint cpu
               \<and> (\<forall>j < i. sint (am_processor (apicid_map s j)) \<noteq> uint cpu)
             \<longrightarrow> (\<exists>r s'. cpu_init_one ncpu env cpu s = Done (r, s')
                    \<and> apicid (pcpu s' (unat cpu)) = am_apicid (apicid_map s i)))"
proof -
  note guard = valid_target_guard [OF target]
  note idx = logical_index_eq [OF target, symmetric]
  note unfolded = init_one_upto_registry [OF guard assms(2-6), of ncpu]
  have miss: "cpu_init_one ncpu env cpu s = Fault AssertFailed"
    if "\<forall>i < ncpu. am_processor (apicid_map s i) \<noteq> cpu"
  proof -
    from that have "lookup_loop ncpu (apicid_map s) cpu 0 = ncpu"
      by (intro lookup_loop_miss) simp_all
    then show ?thesis
      by (simp add: unfolded)
  qed
  have hit: "\<exists>r s'. cpu_init_one ncpu env cpu s = Done (r, s')
      \<and> apicid (pcpu s' (unat cpu)) = am_apicid (apicid_map s i)"
    if "i < ncpu" and "am_processor (apicid_map s i) = cpu"
      and "\<forall>j < i. am_processor (apicid_map s j) \<noteq> cpu" for i
  proof -
    from that have "lookup_loop ncpu (apicid_map s) cpu 0 = i"
      by (intro lookup_loop_first) simp_all
    with that(1) show ?thesis
      by (simp add: unfolded Let_def)
  qed
  have "cpu_init_one ncpu env cpu s \<noteq> Fault AssertFailed"
    if "k < ncpu" and "am_processor (apicid_map s k) = cpu" for k
  proof -
    from first_match_exists [of "\<lambda>j. am_processor (apicid_map s j) = cpu" k, OF that(2)]
    obtain i where "i \<le> k" "am_processor (apicid_map s i) = cpu"
      "\<forall>j < i. am_processor (apicid_map s j) \<noteq> cpu"
      by blast
    with that(1) hit [of i] show ?thesis
      by auto
  qed
  with miss have "cpu_init_one ncpu env cpu s = Fault AssertFailed
      \<longleftrightarrow> (\<forall>i < ncpu. am_processor (apicid_map s i) \<noteq> cpu)"
    by blast
  with hit show ?thesis
    by (simp add: idx)
qed


lemma registry_lookup_slots_example:
  "uint (1 :: 32 word) < sint (cpu_count demo_topology)
   \<and> cpu_init_one 4 demo_bringup_env 1 demo_state = Fault AssertFailed
   \<and> (case cpu_init_one 4 demo_bringup_env 1 demo_topology of
         Fault x \<Rightarrow> False
       | Done (r, s') \<Rightarrow> apicid (pcpu s' 1) = 6)"
proof -
  have t1: "uint (1 :: 32 word) < sint (cpu_count demo_state)"
    and t2: "uint (1 :: 32 word) < sint (cpu_count demo_topology)"
    by (simp_all add: demo_state_def demo_topology_def)
  have e: "setaffinity_ret demo_bringup_env = 0" "getcpu_ret demo_bringup_env = 0"
    "getcpu_cpu demo_bringup_env = 1" "pages demo_bringup_env = Some 4194304"
    "dune_ret demo_bringup_env = 0"
    by (simp_all add: demo_bringup_env_def)
  have none: "\<forall>i < 4. sint (am_processor (apicid_map demo_state i)) \<noteq> uint (1 :: 32 word)"
    by (simp add: demo_state_def)
  have first: "(1 :: nat) < 4 \<and> sint (am_processor (apicid_map demo_topology 1)) = uint (1 :: 32 word)
      \<and> (\<forall>j < 1. sint (am_processor (apicid_map demo_topology j)) \<noteq> uint (1 :: 32 word))"
    by (simp add: demo_topology_def)
  from registry_lookup_slots [OF t1 e, of 4] none
  have "cpu_init_one 4 demo_bringup_env 1 demo_state = Fault AssertFailed"
    by blast
  moreover from registry_lookup_slots [OF t2 e, of 4] first
  have "\<exists>r s'. cpu_init_one 4 demo_bringup_env 1 demo_topology = Done (r, s')
      \<and> apicid (pcpu s' (unat (1 :: 32 word))) = am_apicid (apicid_map demo_topology 1)"
    by blast
  then have "case cpu_init_one 4 demo_bringup_env 1 demo_topology of
         Fault x \<Rightarrow> False
       | Done (r, s') \<Rightarrow> apicid (pcpu s' 1) = 6"
    by (auto simp add: demo_topology_def)
  ultimately show ?thesis
    using t2 by simp
qed

text \<open>
  C9. The assertion of the registry population is there to stop the bring-up of a core
  for which the table has no entry. A slot that the scan never wrote holds the index 0,
  and the lookup goes over all \<open>NCPU\<close> slots, so for core 0 it stops at such a slot. After
  the scan of a source without identifier records, which writes no slot, the bring-up of
  core 0 returns success and stores the hardware identifier 0; the bring-up of core 1 in
  the same state fails the assertion.
\<close>

theorem registry_assertion_misses_core_zero:
  "cpu_init 4 demo_no_apicid demo_state = Done (Success, demo_scanned)
   \<and> cpu_init_one 4 (demo_bringup_env\<lparr>getcpu_cpu := 0\<rparr>) 0 demo_scanned
       = Done (Success,
           demo_scanned\<lparr>percpu_offsets := (percpu_offsets demo_scanned)(0 := Some 4194816),
             pcpu := (pcpu demo_scanned)
               (0 := zero_percpu\<lparr>cpu_id := 0, apicid := 0, runners_mempool := [30, 31]\<rparr>),
             window_head := (window_head demo_scanned)(4194304 := Some 4194816),
             log_is_early_boot := False,
             trace := [EvCreateDatastore, EvFopen, EvFclose, EvSetAffinity 0, EvGetCpu,
                       EvAllocPages 1 0, EvDuneEnter 4194304, EvMempoolCreate 0]\<rparr>)
   \<and> cpu_init_one 4 demo_bringup_env 1 demo_scanned = Fault AssertFailed"
proof -
  have scan: "cpu_init 4 demo_no_apicid demo_state = Done (Success, demo_scanned)"
    by (simp add: cpu_init_def parse_cpuinfo_def demo_no_apicid_def scan_eval emit_def
        demo_scanned_def demo_state_def)
  have g0: "\<not> cpu_count demo_scanned \<le> 0" and g1: "\<not> cpu_count demo_scanned \<le> 1"
    by (simp_all add: demo_scanned_def demo_state_def word_le_def)
  have e0: "setaffinity_ret (demo_bringup_env\<lparr>getcpu_cpu := 0\<rparr>) = 0"
    "getcpu_ret (demo_bringup_env\<lparr>getcpu_cpu := 0\<rparr>) = 0"
    "getcpu_cpu (demo_bringup_env\<lparr>getcpu_cpu := 0\<rparr>) = 0"
    "pages (demo_bringup_env\<lparr>getcpu_cpu := 0\<rparr>) = Some 4194304"
    "dune_ret (demo_bringup_env\<lparr>getcpu_cpu := 0\<rparr>) = 0"
    and e1: "setaffinity_ret demo_bringup_env = 0" "getcpu_ret demo_bringup_env = 0"
    "getcpu_cpu demo_bringup_env = 1" "pages demo_bringup_env = Some 4194304"
    "dune_ret demo_bringup_env = 0"
    by (simp_all add: demo_bringup_env_def)
  have hit: "lookup_loop 4 (apicid_map demo_scanned) 0 0 = 0"
    by (intro lookup_loop_first) (simp_all add: demo_scanned_def demo_state_def)
  have miss: "lookup_loop 4 (apicid_map demo_scanned) 1 0 = 4"
    by (intro lookup_loop_miss) (simp_all add: demo_scanned_def demo_state_def)
  have zero: "cpu_init_one 4 (demo_bringup_env\<lparr>getcpu_cpu := 0\<rparr>) 0 demo_scanned
       = Done (Success,
           demo_scanned\<lparr>percpu_offsets := (percpu_offsets demo_scanned)(0 := Some 4194816),
             pcpu := (pcpu demo_scanned)
               (0 := zero_percpu\<lparr>cpu_id := 0, apicid := 0, runners_mempool := [30, 31]\<rparr>),
             window_head := (window_head demo_scanned)(4194304 := Some 4194816),
             log_is_early_boot := False,
             trace := [EvCreateDatastore, EvFopen, EvFclose, EvSetAffinity 0, EvGetCpu,
                       EvAllocPages 1 0, EvDuneEnter 4194304, EvMempoolCreate 0]\<rparr>)"
    by (simp add: init_one_upto_registry [OF g0 e0] hit Let_def)
      (auto simp add: demo_bringup_env_def PERCPU_DUNE_LEN_def div_up_def zero_percpu_def
        demo_scanned_def demo_state_def intro!: sys.equality)
  have one: "cpu_init_one 4 demo_bringup_env 1 demo_scanned = Fault AssertFailed"
    by (simp add: init_one_upto_registry [OF g1 e1] miss Let_def)
  from scan zero one show ?thesis
    by (intro conjI)
qed


end
